theory Spec2Isabelle
  imports Main "HOL-Library.Word" "HOL-Library.Multiset"
begin

unbundle bit_operations_syntax

section \<open>JavaScript values used by the catalogue service\<close>

text \<open>
  A JavaScript string is a sequence of UTF-16 code units; \<open>charCodeAt\<close> reads one of
  them. Strings that the program only passes around (file names, URLs, game names, status
  lines) are plain \<open>string\<close>s; the input of the hash is a list of code units.
\<close>

type_synonym jsstring = "16 word list"

text \<open>Errors thrown by the runtime and by the host's libraries, each with its message.\<close>

datatype js_error =
    TypeError string
  | SyntaxError string
  | SystemError string
  | NetworkError string

fun error_name :: "js_error \<Rightarrow> string" where
  "error_name (TypeError m) = ''TypeError''"
| "error_name (SyntaxError m) = ''SyntaxError''"
| "error_name (SystemError m) = ''Error''"
| "error_name (NetworkError m) = ''AxiosError''"

fun error_message :: "js_error \<Rightarrow> string" where
  "error_message (TypeError m) = m"
| "error_message (SyntaxError m) = m"
| "error_message (SystemError m) = m"
| "error_message (NetworkError m) = m"

text \<open>\<open>String(e)\<close> for an error object.\<close>

definition error_toString :: "js_error \<Rightarrow> string" where
  "error_toString e =
     (if error_message e = [] then error_name e else error_name e @ '': '' @ error_message e)"

text \<open>\<open>e?.message || String(e)\<close>: the empty message is falsy.\<close>

definition message_or_string :: "js_error \<Rightarrow> string" where
  "message_or_string e = (if error_message e \<noteq> [] then error_message e else error_toString e)"

section \<open>Identifier derivation (routes: fnv1a32, shortId)\<close>

text \<open>
  The bitwise operators of JavaScript work on 32-bit integers: \<open>ToInt32\<close> wraps a
  number into \<open>[-2^31, 2^31)\<close>, \<open>ToUint32\<close> into \<open>[0, 2^32)\<close>. Numbers are modelled
  as \<open>int\<close>: every intermediate value of the hash is an integer far below \<open>2^53\<close>, where
  double arithmetic is exact.
\<close>

definition toInt32 :: "int \<Rightarrow> int" where
  "toInt32 x = (x + 2 ^ 31) mod 2 ^ 32 - 2 ^ 31"

definition toUint32 :: "int \<Rightarrow> int" where
  "toUint32 x = x mod 2 ^ 32"

text \<open>\<open>a ^ b\<close>\<close>

definition js_xor :: "int \<Rightarrow> int \<Rightarrow> int" where
  "js_xor a b = toInt32 a XOR toInt32 b"

text \<open>\<open>a << k\<close>\<close>

definition js_shl :: "int \<Rightarrow> nat \<Rightarrow> int" where
  "js_shl a k = toInt32 (toInt32 a * 2 ^ (k mod 32))"

text \<open>\<open>x >>> 0\<close>\<close>

definition js_ushr0 :: "int \<Rightarrow> int" where
  "js_ushr0 x = toUint32 x"

text \<open>One round of the loop body of \<open>fnv1a32\<close>, for the code unit \<open>c\<close>.\<close>

definition fnv_step :: "int \<Rightarrow> 16 word \<Rightarrow> int" where
  "fnv_step h c =
     (let h1 = js_xor h (uint c)
      in js_ushr0 (h1 + (js_shl h1 1 + js_shl h1 4 + js_shl h1 7 + js_shl h1 8 + js_shl h1 24)))"

fun fnv_loop :: "int \<Rightarrow> jsstring \<Rightarrow> int" where
  "fnv_loop h [] = h"
| "fnv_loop h (c # cs) = fnv_loop (fnv_step h c) cs"

definition fnv1a32 :: "jsstring \<Rightarrow> int" where
  "fnv1a32 str = js_ushr0 (fnv_loop 0x811c9dc5 str)"

text \<open>\<open>Number.prototype.toString(36)\<close> on a non-negative integer.\<close>

definition digit36 :: "nat \<Rightarrow> char" where
  "digit36 d = ''0123456789abcdefghijklmnopqrstuvwxyz'' ! d"

fun toString36 :: "nat \<Rightarrow> string" where
  "toString36 n =
     (if n < 36 then [digit36 n] else toString36 (n div 36) @ [digit36 (n mod 36)])"

declare toString36.simps [simp del]

definition toLowerCase_char :: "char \<Rightarrow> char" where
  "toLowerCase_char c =
     (if 65 \<le> (of_char c :: nat) \<and> (of_char c :: nat) \<le> 90
      then char_of ((of_char c :: nat) + 32) else c)"

definition toLowerCase :: "string \<Rightarrow> string" where
  "toLowerCase s = map toLowerCase_char s"

text \<open>\<open>s.slice(-k)\<close>: the last \<open>k\<close> characters, the whole string when it is shorter.\<close>

definition slice_last :: "nat \<Rightarrow> string \<Rightarrow> string" where
  "slice_last k s = drop (length s - k) s"

text \<open>The body of \<open>shortId\<close> after \<open>String(conceptId)\<close> has produced the string \<open>s\<close>.\<close>

definition shortId_of_string :: "jsstring \<Rightarrow> string" where
  "shortId_of_string s =
     (let n = fnv1a32 s;
          base36 = toLowerCase (toString36 (nat n))
      in slice_last 6 (''000000'' @ base36))"

text \<open>
  A conceptId as it comes out of the parsed snapshots: a number or a string, or absent
  (\<open>undefined\<close>, the \<open>None\<close> of the record field below). Numeric ids are integers.
\<close>

datatype concept_id = CNum int | CStr jsstring

fun decimal_digits :: "nat \<Rightarrow> jsstring" where
  "decimal_digits n =
     (if n < 10 then [word_of_nat (48 + n)]
      else decimal_digits (n div 10) @ [word_of_nat (48 + n mod 10)])"

declare decimal_digits.simps [simp del]

definition ascii :: "string \<Rightarrow> jsstring" where
  "ascii s = map (\<lambda>c. word_of_nat (of_char c)) s"

text \<open>\<open>String(v)\<close> for a conceptId.\<close>

fun js_String :: "concept_id option \<Rightarrow> jsstring" where
  "js_String None = ascii ''undefined''"
| "js_String (Some (CStr s)) = s"
| "js_String (Some (CNum n)) =
     (if n < 0 then ascii ''-'' @ decimal_digits (nat (- n)) else decimal_digits (nat n))"

definition shortId :: "concept_id option \<Rightarrow> string" where
  "shortId cid = shortId_of_string (js_String cid)"

text \<open>The regular expression \<open>^[a-z0-9]{6}$\<close>.\<close>

definition is_lower_alnum :: "char \<Rightarrow> bool" where
  "is_lower_alnum c =
     ((97 \<le> (of_char c :: nat) \<and> (of_char c :: nat) \<le> 122) \<or>
      (48 \<le> (of_char c :: nat) \<and> (of_char c :: nat) \<le> 57))"

definition matches_id_pattern :: "string \<Rightarrow> bool" where
  "matches_id_pattern s = (length s = 6 \<and> list_all is_lower_alnum s)"

subsection \<open>The reference algorithm, as the specification words it\<close>

text \<open>
  FNV-1a on 32 bits: start from the offset basis, and for every input value XOR it into
  the hash and multiply by the prime 16777619 modulo \<open>2^32\<close>. \<open>spec_fnv1a\<close> folds bytes,
  \<open>spec_fnv1a_units\<close> folds 16-bit code units.
\<close>

definition spec_fnv1a :: "8 word list \<Rightarrow> 32 word" where
  "spec_fnv1a bs = foldl (\<lambda>h b. (h XOR ucast b) * 16777619) 0x811c9dc5 bs"

definition spec_fnv1a_units :: "16 word list \<Rightarrow> 32 word" where
  "spec_fnv1a_units cs = foldl (\<lambda>h c. (h XOR ucast c) * 16777619) 0x811c9dc5 cs"

definition pad_left :: "char \<Rightarrow> nat \<Rightarrow> string \<Rightarrow> string" where
  "pad_left c k s = replicate (k - length s) c @ s"

text \<open>Base 36 in lowercase, padded with zeros to at least six characters, the last six kept.\<close>

definition spec_render :: "32 word \<Rightarrow> string" where
  "spec_render h = slice_last 6 (pad_left (CHR ''0'') 6 (toString36 (unat h)))"

definition spec_deriveId :: "8 word list \<Rightarrow> string" where
  "spec_deriveId bs = spec_render (spec_fnv1a bs)"

text \<open>
  The bytes of a string: its UTF-8 encoding. A surrogate pair encodes one code point in
  four bytes, a lone surrogate is replaced by U+FFFD.
\<close>

definition utf8_of_code_point :: "nat \<Rightarrow> 8 word list" where
  "utf8_of_code_point cp =
     (if cp < 0x80 then [word_of_nat cp]
      else if cp < 0x800 then [word_of_nat (0xC0 + cp div 64), word_of_nat (0x80 + cp mod 64)]
      else if cp < 0x10000 then
        [word_of_nat (0xE0 + cp div 4096), word_of_nat (0x80 + (cp div 64) mod 64),
         word_of_nat (0x80 + cp mod 64)]
      else
        [word_of_nat (0xF0 + cp div 262144), word_of_nat (0x80 + (cp div 4096) mod 64),
         word_of_nat (0x80 + (cp div 64) mod 64), word_of_nat (0x80 + cp mod 64)])"

fun utf8_bytes :: "jsstring \<Rightarrow> 8 word list" where
  "utf8_bytes [] = []"
| "utf8_bytes [c] =
     (if 0xD800 \<le> unat c \<and> unat c < 0xE000 then utf8_of_code_point 0xFFFD
      else utf8_of_code_point (unat c))"
| "utf8_bytes (c # d # cs) =
     (if 0xD800 \<le> unat c \<and> unat c < 0xDC00 \<and> 0xDC00 \<le> unat d \<and> unat d < 0xE000
      then utf8_of_code_point (0x10000 + (unat c - 0xD800) * 0x400 + (unat d - 0xDC00))
           @ utf8_bytes cs
      else if 0xD800 \<le> unat c \<and> unat c < 0xE000 then utf8_of_code_point 0xFFFD @ utf8_bytes (d # cs)
      else utf8_of_code_point (unat c) @ utf8_bytes (d # cs))"

section \<open>The data model\<close>

text \<open>
  A raw game record of a snapshot. Every field may be absent, as in a parsed object;
  the code reads \<open>conceptId\<close> and \<open>name\<close> and copies the others. A field that is
  present has the type the upstream delivers: a name is a string.
\<close>

record raw_game =
  conceptId :: "concept_id option"
  name :: "string option"
  nameEn :: "string option"
  conceptUrl :: "string option"
  imageUrl :: "string option"
  device :: "string list option"
  releaseDate :: "string option"

text \<open>A group of a snapshot: \<open>{ catalogKey, count, games }\<close>, \<open>games\<close> possibly absent.\<close>

record group =
  catalogKey :: string
  count :: nat
  games :: "raw_game list option"

text \<open>
  What \<open>JSON.parse\<close> yields for a snapshot file: an array of groups, or \<open>null\<close>
  (\<open>None\<close>). Text of any other shape makes the parser of the model fail.
\<close>

type_synonym snapshot = "group list option"

record public_game =
  pub_id :: string
  pub_conceptId :: "concept_id option"
  pub_name :: "string option"
  pub_nameEn :: "string option"
  gameUrl :: "string option"
  pub_imageUrl :: "string option"
  available_on :: "string list option"
  pub_releaseDate :: "string option"

record catalogue =
  catalogueName :: string
  description :: string
  pub_count :: nat
  pub_games :: "public_game list"

text \<open>The in-memory cache of the routes: one nullable entry per view.\<close>

record cache =
  included :: "catalogue list option"
  classics :: "catalogue list option"
  monthly :: "catalogue list option"
  ubisoft :: "catalogue list option"
  all_view :: "catalogue list option"

text \<open>
  The file store: a path maps to the file's text and its last-write time in milliseconds.
  Creating the directory and writing a file always succeed; reading an absent file fails.
\<close>

record stored_file =
  content :: string
  mtimeMs :: int

type_synonym fs = "string \<rightharpoonup> stored_file"

type_synonym statuses = "string \<rightharpoonup> string"

text \<open>
  A completion listener receives \<open>{ statuses }\<close>, may change the cache, and either
  returns or throws.
\<close>

type_synonym listener = "statuses \<Rightarrow> cache \<Rightarrow> js_error option \<times> cache"

datatype js_arg = Function listener | NotAFunction

text \<open>The module state of the refresher, the files on disk and the cache of the routes.\<close>

record state =
  isRefreshing :: bool
  listeners :: "listener list"
  files :: fs
  cache :: cache

text \<open>
  What one run takes from outside the repository: the clock, the outcome of the HTTP
  request for each URL, and the library functions \<open>JSON.parse\<close>, \<open>JSON.stringify\<close>,
  \<open>Date.prototype.toISOString\<close> and \<open>String.prototype.localeCompare\<close>. A run is taken
  to be instantaneous: every time stamp of one run reads the same clock value.
\<close>

record env =
  nowMs :: int
  toISOString :: "int \<Rightarrow> string"
  fetchRaw :: "string \<Rightarrow> js_error + string"
  json_parse :: "string \<Rightarrow> js_error + snapshot"
  json_stringify :: "group list \<Rightarrow> string"
  localeCompare :: "string \<Rightarrow> string \<Rightarrow> int"

section \<open>The refresher\<close>

definition FULL_DIR :: string where
  "FULL_DIR = ''full_responses''"

definition ENDPOINTS :: "(string \<times> string) list" where
  "ENDPOINTS =
     [(''plus-games-list.txt'',
       ''https://www.playstation.com/bin/imagic/gameslist?locale=en-in&categoryList=plus-games-list''),
      (''ubisoft-classics-list.txt'',
       ''https://www.playstation.com/bin/imagic/gameslist?locale=en-in&categoryList=ubisoft-classics-list''),
      (''plus-classics-list.txt'',
       ''https://www.playstation.com/bin/imagic/gameslist?locale=en-in&categoryList=plus-classics-list''),
      (''plus-monthly-games-list.txt'',
       ''https://www.playstation.com/bin/imagic/gameslist?locale=en-in&categoryList=plus-monthly-games-list'')]"

definition THREE_DAYS_MS :: int where
  "THREE_DAYS_MS = 2 * 24 * 60 * 60 * 1000"

definition addRefreshListener :: "js_arg \<Rightarrow> state \<Rightarrow> state" where
  "addRefreshListener fn st =
     (case fn of Function f \<Rightarrow> st\<lparr>listeners := listeners st @ [f]\<rparr> | NotAFunction \<Rightarrow> st)"

text \<open>\<open>fsp.mkdir(dir, { recursive: true })\<close>: the store has no directories of its own.\<close>

definition ensureDir :: "fs \<Rightarrow> string \<Rightarrow> fs" where
  "ensureDir disk dir = disk"

definition filePath :: "string \<Rightarrow> string" where
  "filePath n = FULL_DIR @ ''/'' @ n"

definition statOrNull :: "fs \<Rightarrow> string \<Rightarrow> stored_file option" where
  "statOrNull disk p = disk p"

fun needsRefresh_loop :: "int \<Rightarrow> fs \<Rightarrow> string list \<Rightarrow> bool" where
  "needsRefresh_loop now disk [] = False"
| "needsRefresh_loop now disk (n # ns) =
     (case statOrNull disk (filePath n) of
        None \<Rightarrow> True
      | Some st \<Rightarrow> if now - mtimeMs st > THREE_DAYS_MS then True
                  else needsRefresh_loop now disk ns)"

definition needsRefresh :: "env \<Rightarrow> state \<Rightarrow> bool" where
  "needsRefresh e st = needsRefresh_loop (nowMs e) (files st) (map fst ENDPOINTS)"

definition writeFileRaw :: "env \<Rightarrow> fs \<Rightarrow> string \<Rightarrow> string \<Rightarrow> fs" where
  "writeFileRaw e disk p data = disk(p \<mapsto> \<lparr>content = data, mtimeMs = nowMs e\<rparr>)"

definition readFile :: "fs \<Rightarrow> string \<Rightarrow> js_error + string" where
  "readFile disk p =
     (case disk p of
        None \<Rightarrow> Inl (SystemError (''ENOENT: no such file or directory, open '' @ p))
      | Some f \<Rightarrow> Inr (content f))"

subsection \<open>Array.prototype.sort with a comparator\<close>

text \<open>
  The sort of the runtime is stable, and the engine of Node calls the comparator with the
  element that stood later in the array as its first argument and an element that stood
  earlier as its second. It is modelled as an insertion sort in that argument order: the
  elements are taken from left to right, and each one is compared, as first argument,
  with the elements already placed, from the last one backwards, and moves in front of
  those it compares less than. \<open>placed\<close> holds the elements already placed, the last one
  first. The comparator may throw, which aborts the sort. The engine searches the place
  of an element by bisection and so may compare it with other earlier elements than the
  model does; for a consistent comparator the result is the same, and the comparators of
  this repository throw, if at all, on their first argument alone, which every element
  but the first of the array becomes in the engine and in the model alike.
\<close>

fun insert_later :: "('a \<Rightarrow> 'a \<Rightarrow> js_error + int) \<Rightarrow> 'a \<Rightarrow> 'a list \<Rightarrow> js_error + 'a list" where
  "insert_later cmp x [] = Inr [x]"
| "insert_later cmp x (y # placed) =
     (case cmp x y of
        Inl e \<Rightarrow> Inl e
      | Inr r \<Rightarrow>
          if r < 0
          then (case insert_later cmp x placed of Inl e \<Rightarrow> Inl e | Inr zs \<Rightarrow> Inr (y # zs))
          else Inr (x # y # placed))"

fun sort_loop :: "('a \<Rightarrow> 'a \<Rightarrow> js_error + int) \<Rightarrow> 'a list \<Rightarrow> 'a list \<Rightarrow> js_error + 'a list" where
  "sort_loop cmp placed [] = Inr (rev placed)"
| "sort_loop cmp placed (x # xs) =
     (case insert_later cmp x placed of
        Inl e \<Rightarrow> Inl e
      | Inr placed' \<Rightarrow> sort_loop cmp placed' xs)"

definition array_sort :: "('a \<Rightarrow> 'a \<Rightarrow> js_error + int) \<Rightarrow> 'a list \<Rightarrow> js_error + 'a list" where
  "array_sort cmp xs = sort_loop cmp [] xs"

text \<open>\<open>(a && a.name) || ''\<close>: an absent or empty name gives the empty string.\<close>

definition name_or_empty :: "raw_game \<Rightarrow> string" where
  "name_or_empty a = (case name a of None \<Rightarrow> [] | Some n \<Rightarrow> n)"

text \<open>\<open>sortByName\<close> of the refresher.\<close>

definition sortByName :: "env \<Rightarrow> raw_game list \<Rightarrow> js_error + raw_game list" where
  "sortByName e gs =
     array_sort (\<lambda>a b. Inr (localeCompare e (name_or_empty a) (name_or_empty b))) gs"

text \<open>\<open>g.games || []\<close>\<close>

definition games_or_empty :: "group \<Rightarrow> raw_game list" where
  "games_or_empty g = (case games g of None \<Rightarrow> [] | Some gs \<Rightarrow> gs)"

text \<open>\<open>(grouped || []).flatMap(g => g.games || [])\<close>\<close>

definition flatten_snapshot :: "snapshot \<Rightarrow> raw_game list" where
  "flatten_snapshot grouped =
     concat (map games_or_empty (case grouped of None \<Rightarrow> [] | Some gs \<Rightarrow> gs))"

fun map_result :: "('a \<Rightarrow> js_error + 'b) \<Rightarrow> 'a list \<Rightarrow> js_error + 'b list" where
  "map_result f [] = Inr []"
| "map_result f (x # xs) =
     (case f x of
        Inl e \<Rightarrow> Inl e
      | Inr y \<Rightarrow> (case map_result f xs of Inl e \<Rightarrow> Inl e | Inr ys \<Rightarrow> Inr (y # ys)))"

definition allPayload :: "raw_game list \<Rightarrow> group list" where
  "allPayload gamesSorted =
     [\<lparr>catalogKey = ''ALL'', count = length gamesSorted, games = Some gamesSorted\<rparr>]"

definition generateAllMerged :: "env \<Rightarrow> fs \<Rightarrow> js_error + fs" where
  "generateAllMerged e disk =
     (case map_result (\<lambda>n. readFile disk (filePath n)) (map fst ENDPOINTS) of
        Inl err \<Rightarrow> Inl err
      | Inr rawArr \<Rightarrow>
          (case map_result (json_parse e) rawArr of
             Inl err \<Rightarrow> Inl err
           | Inr parsed \<Rightarrow>
               (case sortByName e (concat (map flatten_snapshot parsed)) of
                  Inl err \<Rightarrow> Inl err
                | Inr gamesSorted \<Rightarrow>
                    Inr (writeFileRaw e disk (filePath ''all.txt'')
                           (json_stringify e (allPayload gamesSorted))))))"

subsection \<open>refreshOnce\<close>

datatype settled = Fulfilled string | Rejected js_error

fun is_rejected :: "settled \<Rightarrow> bool" where
  "is_rejected (Rejected e) = True"
| "is_rejected (Fulfilled v) = False"

definition status_line :: "env \<Rightarrow> string \<Rightarrow> string" where
  "status_line e fname = fname @ '' refreshed on '' @ toISOString e (nowMs e) @ '' successfully''"

text \<open>The task started for one entry of \<open>ENDPOINTS\<close>: fetch, write, record the status.\<close>

definition fetchTask :: "env \<Rightarrow> string \<times> string \<Rightarrow> fs \<times> statuses \<Rightarrow> settled \<times> fs \<times> statuses" where
  "fetchTask e entry acc =
     (case entry of (fname, url) \<Rightarrow>
      case acc of (disk, sts) \<Rightarrow>
        (case fetchRaw e url of
           Inl err \<Rightarrow> (Rejected err, disk, sts)
         | Inr data \<Rightarrow>
             (Fulfilled fname, writeFileRaw e disk (filePath fname) data,
              sts(fname \<mapsto> status_line e fname))))"

text \<open>
  \<open>Promise.allSettled\<close> over the tasks. The tasks touch different files and different
  keys of the status object, so running them in the order of \<open>ENDPOINTS\<close> gives the state
  every interleaving gives.
\<close>

fun allSettled :: "env \<Rightarrow> (string \<times> string) list \<Rightarrow> fs \<times> statuses \<Rightarrow> settled list \<times> fs \<times> statuses" where
  "allSettled e [] acc = ([], acc)"
| "allSettled e (entry # rest) acc =
     (case fetchTask e entry acc of (r, acc') \<Rightarrow>
      case allSettled e rest acc' of (rs, acc'') \<Rightarrow> (r # rs, acc''))"

text \<open>
  The loop over the listeners stands inside one \<open>try\<close>: the first listener that throws
  ends the loop, and the error is caught and logged.
\<close>

fun notifyListeners :: "listener list \<Rightarrow> statuses \<Rightarrow> cache \<Rightarrow> js_error option \<times> cache" where
  "notifyListeners [] sts c = (None, c)"
| "notifyListeners (fn # fns) sts c =
     (case fn sts c of
        (Some err, c') \<Rightarrow> (Some err, c')
      | (None, c') \<Rightarrow> notifyListeners fns sts c')"

datatype refresh_result =
    InProgress
  | Completed bool statuses
  | Failed string statuses

text \<open>The \<open>try\<close> block with its \<open>catch\<close>; \<open>st\<close> already has the flag set.\<close>

definition refresh_body :: "env \<Rightarrow> state \<Rightarrow> refresh_result \<times> state" where
  "refresh_body e st =
     (case allSettled e ENDPOINTS (ensureDir (files st) FULL_DIR, Map.empty) of
        (results, disk1, sts1) \<Rightarrow>
        let anyRejected = list_ex is_rejected results in
        if \<not> anyRejected then
          (case generateAllMerged e disk1 of
             Inl err \<Rightarrow> (Failed (message_or_string err) sts1, st\<lparr>files := disk1\<rparr>)
           | Inr disk2 \<Rightarrow>
               let sts2 = sts1(''all.txt'' \<mapsto> status_line e ''all.txt'') in
               (case notifyListeners (listeners st) sts2 (cache st) of (caught, c') \<Rightarrow>
                  (Completed anyRejected sts2, st\<lparr>files := disk2, cache := c'\<rparr>)))
        else (Completed anyRejected sts1, st\<lparr>files := disk1\<rparr>))"

text \<open>The guard, the flag, and the \<open>finally\<close> that clears it.\<close>

definition refreshOnce :: "env \<Rightarrow> state \<Rightarrow> refresh_result \<times> state" where
  "refreshOnce e st =
     (if isRefreshing st then (InProgress, st)
      else (case refresh_body e (st\<lparr>isRefreshing := True\<rparr>) of
              (r, st') \<Rightarrow> (r, st'\<lparr>isRefreshing := False\<rparr>)))"

definition maybeRefresh :: "env \<Rightarrow> state \<Rightarrow> state" where
  "maybeRefresh e st = (if needsRefresh e st then snd (refreshOnce e st) else st)"

fun result_statuses :: "refresh_result \<Rightarrow> statuses" where
  "result_statuses InProgress = Map.empty"
| "result_statuses (Completed r sts) = sts"
| "result_statuses (Failed m sts) = sts"

section \<open>The routes\<close>

text \<open>\<open>path.join(__dirname, rel)\<close>, relative to the directory both modules live in.\<close>

definition join_dirname :: "string \<Rightarrow> string" where
  "join_dirname rel = (if take 2 rel = ''./'' then drop 2 rel else rel)"

definition readJsonFile :: "env \<Rightarrow> fs \<Rightarrow> string \<Rightarrow> js_error + snapshot" where
  "readJsonFile e disk relativePath =
     (case readFile disk (join_dirname relativePath) of
        Inl err \<Rightarrow> Inl err
      | Inr txt \<Rightarrow> json_parse e txt)"

definition toPublicGame :: "raw_game \<Rightarrow> public_game" where
  "toPublicGame g =
     \<lparr>pub_id = shortId (conceptId g),
      pub_conceptId = conceptId g,
      pub_name = name g,
      pub_nameEn = nameEn g,
      gameUrl = conceptUrl g,
      pub_imageUrl = imageUrl g,
      available_on = device g,
      pub_releaseDate = releaseDate g\<rparr>"

text \<open>The listener the routes register: it clears every entry of the cache.\<close>

definition invalidate_cache :: listener where
  "invalidate_cache payload c =
     (None, c\<lparr>included := None, classics := None, monthly := None, ubisoft := None,
              all_view := None\<rparr>)"

text \<open>\<open>data.flatMap(group => group.games || [])\<close>; \<open>null.flatMap\<close> throws.\<close>

definition loadGroupedGames :: "env \<Rightarrow> fs \<Rightarrow> string \<Rightarrow> js_error + raw_game list" where
  "loadGroupedGames e disk fileRelPath =
     (case readJsonFile e disk fileRelPath of
        Inl err \<Rightarrow> Inl err
      | Inr None \<Rightarrow> Inl (TypeError ''Cannot read properties of null (reading flatMap)'')
      | Inr (Some data) \<Rightarrow> Inr (concat (map games_or_empty data)))"

text \<open>
  \<open>sortByName\<close> of the routes: \<open>a.name.localeCompare(b.name)\<close>. An absent \<open>a.name\<close>
  throws; an absent \<open>b.name\<close> is compared as the string \<open>undefined\<close>.
\<close>

definition routes_compare :: "env \<Rightarrow> raw_game \<Rightarrow> raw_game \<Rightarrow> js_error + int" where
  "routes_compare e a b =
     (case name a of
        None \<Rightarrow> Inl (TypeError ''Cannot read properties of undefined (reading localeCompare)'')
      | Some an \<Rightarrow>
          Inr (localeCompare e an (case name b of None \<Rightarrow> ''undefined'' | Some bn \<Rightarrow> bn)))"

definition routes_sortByName :: "env \<Rightarrow> raw_game list \<Rightarrow> js_error + raw_game list" where
  "routes_sortByName e arr = array_sort (routes_compare e) arr"

subsection \<open>The merge of \<open>/all-games\<close>\<close>

text \<open>A \<open>Map\<close> keeps its entries in insertion order.\<close>

type_synonym js_map = "(concept_id option \<times> raw_game) list"

definition map_has :: "js_map \<Rightarrow> concept_id option \<Rightarrow> bool" where
  "map_has m k = list_ex (\<lambda>kv. fst kv = k) m"

definition map_set :: "js_map \<Rightarrow> concept_id option \<Rightarrow> raw_game \<Rightarrow> js_map" where
  "map_set m k v =
     (if map_has m k then map (\<lambda>kv. if fst kv = k then (k, v) else kv) m else m @ [(k, v)])"

definition map_values :: "js_map \<Rightarrow> raw_game list" where
  "map_values m = map snd m"

fun dedupe_loop :: "js_map \<Rightarrow> raw_game list \<Rightarrow> js_map" where
  "dedupe_loop byId [] = byId"
| "dedupe_loop byId (g # gs) =
     dedupe_loop (if \<not> map_has byId (conceptId g) then map_set byId (conceptId g) g else byId) gs"

text \<open>Lines 112 to 115 of the handler: the merged, de-duplicated list.\<close>

definition merge_dedupe :: "raw_game list \<Rightarrow> raw_game list \<Rightarrow> raw_game list \<Rightarrow> raw_game list \<Rightarrow> raw_game list" where
  "merge_dedupe incl clas mon ubi = map_values (dedupe_loop [] (incl @ clas @ mon @ ubi))"

definition build_all_games :: "env \<Rightarrow> fs \<Rightarrow> js_error + catalogue list" where
  "build_all_games e disk =
     (case loadGroupedGames e disk ''./full_responses/plus-games-list.txt'' of
        Inl err \<Rightarrow> Inl err
      | Inr incl \<Rightarrow>
     (case loadGroupedGames e disk ''./full_responses/plus-classics-list.txt'' of
        Inl err \<Rightarrow> Inl err
      | Inr clas \<Rightarrow>
     (case loadGroupedGames e disk ''./full_responses/plus-monthly-games-list.txt'' of
        Inl err \<Rightarrow> Inl err
      | Inr mon \<Rightarrow>
     (case loadGroupedGames e disk ''./full_responses/ubisoft-classics-list.txt'' of
        Inl err \<Rightarrow> Inl err
      | Inr ubi \<Rightarrow>
     (case routes_sortByName e (merge_dedupe incl clas mon ubi) of
        Inl err \<Rightarrow> Inl err
      | Inr sorted_games \<Rightarrow>
          Inr [\<lparr>catalogueName = ''All'',
                description = ''Every game from every catalogue'',
                pub_count = length (map toPublicGame sorted_games),
                pub_games = map toPublicGame sorted_games\<rparr>])))))"

datatype response =
    JsonCatalogue "catalogue list"
  | JsonSnapshot snapshot
  | Error500 string string

definition all_games :: "env \<Rightarrow> state \<Rightarrow> response \<times> state" where
  "all_games e st =
     (case all_view (cache st) of
        Some c \<Rightarrow> (JsonCatalogue c, st)
      | None \<Rightarrow>
          (case build_all_games e (files st) of
             Inl err \<Rightarrow> (Error500 ''Failed to build all-games'' (error_toString err), st)
           | Inr c \<Rightarrow> (JsonCatalogue c, st\<lparr>cache := (cache st)\<lparr>all_view := Some c\<rparr>\<rparr>)))"

definition all_data :: "env \<Rightarrow> state \<Rightarrow> response" where
  "all_data e st =
     (case readFile (files st) (join_dirname ''./full_responses/all.txt'') of
        Inl err \<Rightarrow> Error500 ''Failed to load all-data'' (error_toString err)
      | Inr txt \<Rightarrow>
          (case json_parse e txt of
             Inl err \<Rightarrow> Error500 ''Failed to load all-data'' (error_toString err)
           | Inr json \<Rightarrow> JsonSnapshot json))"

subsection \<open>De-duplication, as the specification words it\<close>

text \<open>
  \<open>dedupeByConceptId\<close>: walk the list once and keep a record exactly when its conceptId
  has not been seen before.
\<close>

fun spec_dedupe_from :: "concept_id option list \<Rightarrow> raw_game list \<Rightarrow> raw_game list" where
  "spec_dedupe_from seen [] = []"
| "spec_dedupe_from seen (g # gs) =
     (if conceptId g \<in> set seen then spec_dedupe_from seen gs
      else g # spec_dedupe_from (conceptId g # seen) gs)"

definition spec_dedupeByConceptId :: "raw_game list \<Rightarrow> raw_game list" where
  "spec_dedupeByConceptId gs = spec_dedupe_from [] gs"

section \<open>Sample data\<close>

text \<open>
  A small world on which the theorems below are instantiated: three games, two of them
  with the same conceptId in different sources, upstream texts named after their source,
  and a parser that knows exactly these texts.
\<close>

definition game_alpha :: raw_game where
  "game_alpha =
     \<lparr>conceptId = Some (CNum 10001), name = Some ''Alpha'', nameEn = Some ''Alpha'',
      conceptUrl = None, imageUrl = None, device = Some [''PS5''], releaseDate = None\<rparr>"

definition game_alpha_classic :: raw_game where
  "game_alpha_classic =
     \<lparr>conceptId = Some (CNum 10001), name = Some ''Alpha Classic'', nameEn = None,
      conceptUrl = None, imageUrl = None, device = Some [''PS4''], releaseDate = None\<rparr>"

definition game_beta :: raw_game where
  "game_beta =
     \<lparr>conceptId = Some (CNum 10002), name = Some ''Beta'', nameEn = None,
      conceptUrl = None, imageUrl = None, device = None, releaseDate = None\<rparr>"

definition nameless_one :: raw_game where
  "nameless_one =
     \<lparr>conceptId = Some (CNum 1), name = None, nameEn = None,
      conceptUrl = None, imageUrl = None, device = None, releaseDate = None\<rparr>"

definition nameless_two :: raw_game where
  "nameless_two =
     \<lparr>conceptId = Some (CNum 2), name = None, nameEn = None,
      conceptUrl = None, imageUrl = None, device = None, releaseDate = None\<rparr>"

text \<open>A stand-in for the collation of the host: code point order.\<close>

fun code_point_compare :: "string \<Rightarrow> string \<Rightarrow> int" where
  "code_point_compare [] [] = 0"
| "code_point_compare [] (b # bs) = - 1"
| "code_point_compare (a # as) [] = 1"
| "code_point_compare (a # as) (b # bs) =
     (if (of_char a :: nat) < of_char b then - 1
      else if (of_char b :: nat) < of_char a then 1
      else code_point_compare as bs)"

definition sample_merged :: "raw_game list" where
  "sample_merged = [game_alpha, game_alpha_classic, game_beta]"

text \<open>
  A stand-in for \<open>JSON.stringify\<close> that writes, for every group, its key, its count and
  the conceptId and name of every game in order.
\<close>

fun decimal :: "nat \<Rightarrow> string" where
  "decimal n =
     (if n < 10 then [''0123456789'' ! n] else decimal (n div 10) @ [''0123456789'' ! (n mod 10)])"

declare decimal.simps [simp del]

definition sample_id :: "raw_game \<Rightarrow> string" where
  "sample_id g =
     (case conceptId g of
        None \<Rightarrow> ''undefined''
      | Some (CNum i) \<Rightarrow> (if i < 0 then ''-'' else []) @ decimal (nat \<bar>i\<bar>)
      | Some (CStr s) \<Rightarrow> map (\<lambda>u. char_of (unat u)) s)"

definition sample_stringify :: "group list \<Rightarrow> string" where
  "sample_stringify payload =
     concat (map (\<lambda>grp. catalogKey grp @ ''|'' @ decimal (count grp) @ ''|''
                          @ concat (map (\<lambda>g. sample_id g @ '':'' @ name_or_empty g @ ''|'')
                                        (games_or_empty grp)))
                 payload)"

definition sample_parse :: "string \<Rightarrow> js_error + snapshot" where
  "sample_parse txt =
     (if txt = ''INCLUDED'' then
        Inr (Some [\<lparr>catalogKey = ''plus-games-list'', count = 1, games = Some [game_alpha]\<rparr>])
      else if txt = ''UBISOFT'' then Inr (Some [])
      else if txt = ''CLASSICS'' then
        Inr (Some [\<lparr>catalogKey = ''plus-classics-list'', count = 2,
                    games = Some [game_alpha_classic, game_beta]\<rparr>])
      else if txt = ''MONTHLY'' then
        Inr (Some [\<lparr>catalogKey = ''plus-monthly-games-list'', count = 0, games = None\<rparr>])
      else if txt = ''ALL|3|10001:Alpha|10001:Alpha Classic|10002:Beta|'' then
        Inr (Some [\<lparr>catalogKey = ''ALL'', count = 3,
                    games = Some [game_alpha, game_alpha_classic, game_beta]\<rparr>])
      else Inl (SyntaxError ''Unexpected token''))"

definition sample_texts :: "string list" where
  "sample_texts = [''INCLUDED'', ''UBISOFT'', ''CLASSICS'', ''MONTHLY'']"

text \<open>Every request succeeds and returns the text of its source.\<close>

definition fetch_all_ok :: "string \<Rightarrow> js_error + string" where
  "fetch_all_ok url =
     (case map_of (zip (map snd ENDPOINTS) sample_texts) url of
        Some txt \<Rightarrow> Inr txt
      | None \<Rightarrow> Inl (NetworkError ''Request failed with status code 404''))"

text \<open>The request for the first source times out, the other three succeed.\<close>

definition fetch_first_fails :: "string \<Rightarrow> js_error + string" where
  "fetch_first_fails url =
     (if url = snd (hd ENDPOINTS) then Inl (NetworkError ''timeout of 30000ms exceeded'')
      else fetch_all_ok url)"

text \<open>Every request succeeds, with a page that is not JSON.\<close>

definition fetch_html :: "string \<Rightarrow> js_error + string" where
  "fetch_html url = Inr ''<html>''"

definition env_ok :: env where
  "env_ok =
     \<lparr>nowMs = 1700000000000,
      toISOString = (\<lambda>t. ''2023-11-14T22:13:20.000Z''),
      fetchRaw = fetch_all_ok,
      json_parse = sample_parse,
      json_stringify = sample_stringify,
      localeCompare = code_point_compare\<rparr>"

definition env_partial :: env where
  "env_partial = env_ok\<lparr>fetchRaw := fetch_first_fails\<rparr>"

definition env_html :: env where
  "env_html = env_ok\<lparr>fetchRaw := fetch_html\<rparr>"

definition warm_cache :: cache where
  "warm_cache =
     \<lparr>included = None, classics = None, monthly = None, ubisoft = None,
      all_view = Some [\<lparr>catalogueName = ''All'',
                        description = ''Every game from every catalogue'',
                        pub_count = 0, pub_games = []\<rparr>]\<rparr>"

definition cold_cache :: cache where
  "cold_cache =
     \<lparr>included = None, classics = None, monthly = None, ubisoft = None, all_view = None\<rparr>"

definition idle_state :: state where
  "idle_state =
     addRefreshListener (Function invalidate_cache)
       \<lparr>isRefreshing = False, listeners = [], files = Map.empty, cache = warm_cache\<rparr>"

definition busy_state :: state where
  "busy_state = idle_state\<lparr>isRefreshing := True\<rparr>"

definition broken_listener :: listener where
  "broken_listener payload c = (Some (TypeError ''listener failed''), c)"

text \<open>A state in which a throwing listener was registered before the one of the routes.\<close>

definition broken_first_state :: state where
  "broken_first_state =
     addRefreshListener (Function invalidate_cache)
       (addRefreshListener (Function broken_listener)
          \<lparr>isRefreshing = False, listeners = [], files = Map.empty, cache = warm_cache\<rparr>)"

text \<open>All four snapshots on disk, each written \<open>age\<close> milliseconds before \<open>nowMs env_ok\<close>.\<close>

definition aged_files :: "int \<Rightarrow> fs" where
  "aged_files age =
     map_of (map (\<lambda>n. (filePath n, \<lparr>content = ''[]'', mtimeMs = nowMs env_ok - age\<rparr>))
                 (map fst ENDPOINTS))"

definition aged_state :: "int \<Rightarrow> state" where
  "aged_state age =
     \<lparr>isRefreshing = False, listeners = [], files = aged_files age, cache = cold_cache\<rparr>"

text \<open>The four snapshots of the sample on disk, and the merged file written from them.\<close>

definition sample_files :: fs where
  "sample_files =
     map_of (zip (map (\<lambda>n. filePath n) (map fst ENDPOINTS))
                 (map (\<lambda>txt. \<lparr>content = txt, mtimeMs = nowMs env_ok\<rparr>) sample_texts))"

definition sample_snapshots :: "string \<Rightarrow> snapshot" where
  "sample_snapshots n =
     (case map_of (zip (map fst ENDPOINTS) sample_texts) n of
        Some txt \<Rightarrow> (case sample_parse txt of Inr s \<Rightarrow> s | Inl err \<Rightarrow> None)
      | None \<Rightarrow> None)"

definition sample_state :: state where
  "sample_state =
     \<lparr>isRefreshing = False, listeners = [], files = sample_files, cache = cold_cache\<rparr>"

section \<open>Identifier derivation: the code against the reference\<close>

subsection \<open>The shift-and-add step is multiplication by the prime\<close>

lemma toInt32_mod: "toInt32 x mod 2 ^ 32 = x mod 2 ^ 32"
proof -
  have "((x + 2 ^ 31) mod 2 ^ 32 - 2 ^ 31) mod 2 ^ 32 = ((x + 2 ^ 31) - 2 ^ 31) mod 2 ^ 32"
    by (rule mod_diff_left_eq)
  then show ?thesis by (simp add: toInt32_def)
qed

lemma word_of_int_toInt32: "(word_of_int (toInt32 x) :: 32 word) = word_of_int x"
  using toInt32_mod [of x] by (simp add: word_of_int_eq_iff take_bit_eq_mod)

lemma word_of_int_toUint32: "(word_of_int (toUint32 x) :: 32 word) = word_of_int x"
  by (simp add: toUint32_def word_of_int_eq_iff take_bit_eq_mod)

lemma toUint32_uint: "toUint32 x = uint (word_of_int x :: 32 word)"
  by (simp add: toUint32_def uint_word_of_int)

lemma word_of_int_js_xor: "(word_of_int (js_xor a b) :: 32 word) = word_of_int a XOR word_of_int b"
  by (metis js_xor_def word_of_int_toInt32 word_wi_log_defs(4))

lemma word_of_int_js_shl: "(word_of_int (js_shl a k) :: 32 word) = word_of_int a * 2 ^ (k mod 32)"
  by (simp add: js_shl_def word_of_int_toInt32 wi_hom_mult)

lemma fnv_step_word:
  "fnv_step h c = uint (((word_of_int h :: 32 word) XOR ucast c) * 16777619)"
proof -
  define w :: "32 word" where "w = word_of_int h XOR ucast c"
  have w: "(word_of_int (js_xor h (uint c)) :: 32 word) = w"
    by (simp add: word_of_int_js_xor w_def)
  have "(word_of_int (js_xor h (uint c) + (js_shl (js_xor h (uint c)) 1 + js_shl (js_xor h (uint c)) 4
          + js_shl (js_xor h (uint c)) 7 + js_shl (js_xor h (uint c)) 8 + js_shl (js_xor h (uint c)) 24)) :: 32 word)
        = w + (w * 2 ^ 1 + w * 2 ^ 4 + w * 2 ^ 7 + w * 2 ^ 8 + w * 2 ^ 24)"
    by (simp add: word_of_int_js_shl w)
  also have "\<dots> = w * 16777619"
    by (simp add: algebra_simps)
  finally show ?thesis
    by (simp add: fnv_step_def Let_def js_ushr0_def toUint32_uint w_def)
qed

lemma word_of_int_fnv_loop:
  "(word_of_int (fnv_loop h cs) :: 32 word)
     = foldl (\<lambda>h c. (h XOR ucast c) * 16777619) (word_of_int h) cs"
  by (induction cs arbitrary: h) (simp_all add: fnv_step_word)

lemma fnv1a32_word: "fnv1a32 s = uint (spec_fnv1a_units s)"
  using word_of_int_fnv_loop [of "0x811c9dc5" s]
  by (simp add: fnv1a32_def js_ushr0_def toUint32_uint spec_fnv1a_units_def)

lemma nat_fnv1a32: "nat (fnv1a32 s) = unat (spec_fnv1a_units s)"
  by (simp add: fnv1a32_word)

subsection \<open>Rendering\<close>

lemma digit36_table:
  "list_all (\<lambda>d. is_lower_alnum (digit36 d) \<and> toLowerCase_char (digit36 d) = digit36 d) [0..<36]"
  by code_simp

lemma digit36_ok:
  assumes "d < 36"
  shows "is_lower_alnum (digit36 d)" and "toLowerCase_char (digit36 d) = digit36 d"
proof -
  from assms have "d \<in> set [0..<36]" by simp
  with digit36_table show "is_lower_alnum (digit36 d)" and "toLowerCase_char (digit36 d) = digit36 d"
    unfolding list_all_iff by blast+
qed

lemma toString36_alnum: "list_all is_lower_alnum (toString36 n)"
proof (induction n rule: toString36.induct)
  case (1 n)
  show ?case
  proof (cases "n < 36")
    case True
    then show ?thesis by (subst toString36.simps) (simp add: digit36_ok)
  next
    case False
    with 1 show ?thesis by (subst toString36.simps) (simp add: digit36_ok)
  qed
qed

lemma toLowerCase_toString36: "toLowerCase (toString36 n) = toString36 n"
proof (induction n rule: toString36.induct)
  case (1 n)
  show ?case
  proof (cases "n < 36")
    case True
    then show ?thesis by (subst (1 2) toString36.simps) (simp add: digit36_ok toLowerCase_def)
  next
    case False
    with 1 show ?thesis by (subst (1 2) toString36.simps) (simp add: digit36_ok toLowerCase_def)
  qed
qed

lemma zeros_replicate: "''000000'' = replicate 6 (CHR ''0'')"
  by (simp add: numeral_eq_Suc)

lemma slice_last_replicate:
  "slice_last k (replicate k c @ d) = slice_last k (pad_left c k d)"
proof (cases "k \<le> length d")
  case True
  then show ?thesis by (simp add: slice_last_def pad_left_def)
next
  case False
  then show ?thesis by (simp add: slice_last_def pad_left_def)
qed

lemma slice_last_zeros:
  "slice_last 6 (''000000'' @ d) = slice_last 6 (pad_left (CHR ''0'') 6 d)"
  unfolding zeros_replicate by (rule slice_last_replicate)

lemma length_slice_last_replicate: "length (slice_last k (replicate k c @ d)) = k"
  by (simp add: slice_last_def)

lemma length_slice_last_zeros: "length (slice_last 6 (''000000'' @ d)) = 6"
  unfolding zeros_replicate by (rule length_slice_last_replicate)

lemma alnum_slice_last_zeros:
  assumes d: "list_all is_lower_alnum d"
  shows "list_all is_lower_alnum (slice_last 6 (''000000'' @ d))"
proof -
  have "list_all is_lower_alnum ''000000''" by (simp add: is_lower_alnum_def)
  with d have "list_all is_lower_alnum (''000000'' @ d)" by simp
  then show ?thesis
    unfolding slice_last_def list_all_iff by (meson in_set_dropD)
qed

lemma shortId_of_string_unfold:
  "shortId_of_string s = slice_last 6 (''000000'' @ toString36 (unat (spec_fnv1a_units s)))"
  unfolding shortId_of_string_def Let_def nat_fnv1a32 toLowerCase_toString36 ..

lemma shortId_of_string_spec: "shortId_of_string s = spec_render (spec_fnv1a_units s)"
  unfolding shortId_of_string_unfold spec_render_def by (rule slice_last_zeros)

lemma shortId_of_string_pattern: "matches_id_pattern (shortId_of_string s)"
  unfolding shortId_of_string_unfold matches_id_pattern_def
  using length_slice_last_zeros alnum_slice_last_zeros [OF toString36_alnum] by blast

lemma utf8_bytes_ascii:
  "list_all (\<lambda>c. unat c < 0x80) s \<Longrightarrow> utf8_bytes s = map ucast s"
proof (induction s rule: utf8_bytes.induct)
  case 1
  then show ?case by simp
next
  case (2 c)
  then show ?case by (simp add: utf8_of_code_point_def)
next
  case (3 c d cs)
  then show ?case by (simp add: utf8_of_code_point_def)
qed

subsection \<open>Bytes and code units\<close>

lemma unat_ucast_8_32: "unat (ucast (x :: 8 word) :: 32 word) = unat x"
proof -
  have "uint (ucast x :: 32 word) = uint x" by (rule uint_up_ucast) (simp add: is_up)
  then show ?thesis by (metis unat_eq_nat_uint)
qed

lemma unat_ucast_16_32: "unat (ucast (x :: 16 word) :: 32 word) = unat x"
proof -
  have "uint (ucast x :: 32 word) = uint x" by (rule uint_up_ucast) (simp add: is_up)
  then show ?thesis by (metis unat_eq_nat_uint)
qed

lemma unat_ucast_16_8: "unat (c :: 16 word) < 256 \<Longrightarrow> unat (ucast c :: 8 word) = unat c"
  by (simp add: unsigned_ucast_eq take_bit_eq_mod)

lemma ucast_ucast_byte:
  assumes "unat (c :: 16 word) < 256"
  shows "(ucast (ucast c :: 8 word) :: 32 word) = ucast c"
  using assms by (simp add: word_unat_eq_iff unat_ucast_8_32 unat_ucast_16_32 unat_ucast_16_8)

lemma foldl_bytes_units:
  "list_all (\<lambda>c. unat c < 256) s \<Longrightarrow>
   foldl (\<lambda>h b. (h XOR ucast b) * 16777619) (h0 :: 32 word) (map ucast s :: 8 word list)
     = foldl (\<lambda>h c. (h XOR ucast c) * 16777619) h0 (s :: 16 word list)"
  by (induction s arbitrary: h0) (simp_all add: ucast_ucast_byte)

lemma spec_fnv1a_latin1:
  "list_all (\<lambda>c. unat c < 256) s \<Longrightarrow> spec_fnv1a (map ucast s) = spec_fnv1a_units s"
  unfolding spec_fnv1a_def spec_fnv1a_units_def by (rule foldl_bytes_units)

lemma shortId_of_string_ascii:
  assumes "list_all (\<lambda>c. unat c < 0x80) s"
  shows "shortId_of_string s = spec_deriveId (utf8_bytes s)"
proof -
  from assms have "list_all (\<lambda>c. unat c < 256) s"
    unfolding list_all_iff by fastforce
  then have "spec_fnv1a (map ucast s) = spec_fnv1a_units s" by (rule spec_fnv1a_latin1)
  with utf8_bytes_ascii [OF assms] show ?thesis
    by (simp add: shortId_of_string_spec spec_deriveId_def)
qed

lemma u0100_bytes: "utf8_bytes [0x100] = [0xC4, 0x80]"
  by (simp add: utf8_of_code_point_def)

lemma u0100_bytewise_hash: "spec_fnv1a [0xC4, 0x80] = 2005931497"
  by (simp add: spec_fnv1a_def)

lemma u0100_bytewise_digits: "toString36 2005931497 = ''x6a2nd''"
  by (simp add: toString36.simps digit36_def)

lemma u0100_bytewise_render: "spec_render 2005931497 = ''x6a2nd''"
  by (simp add: spec_render_def u0100_bytewise_digits pad_left_def slice_last_def)

lemma u0100_bytewise_id: "spec_deriveId (utf8_bytes [0x100]) = ''x6a2nd''"
  unfolding u0100_bytes spec_deriveId_def u0100_bytewise_hash by (rule u0100_bytewise_render)

lemma u0100_hash: "fnv1a32 [0x100] = 84593183"
  by (simp add: fnv1a32_def fnv_step_def js_xor_def js_shl_def js_ushr0_def toInt32_def toUint32_def)

lemma u0100_digits: "toString36 84593183 = ''1ed4in''"
  by (simp add: toString36.simps digit36_def)

lemma u0100_id: "shortId_of_string [0x100] = ''1ed4in''"
  by (simp add: shortId_of_string_def u0100_hash u0100_digits toLowerCase_def toLowerCase_char_def slice_last_def)

text \<open>
  Claim C3, as the code has it. For every string the short id is the base-36 rendering
  (zero-padded to six, last six kept) of the FNV-1a hash that folds each UTF-16 code unit
  of the string, it matches \<open>^[a-z0-9]{6}$\<close>, and for a string of ASCII characters it is the
  byte-wise reference value on the bytes of the string. Being a function of the string
  alone, it is the same on every call.
\<close>

theorem shortId_reference_algorithm:
  "shortId (Some (CStr s)) = spec_render (spec_fnv1a_units s)
   \<and> matches_id_pattern (shortId (Some (CStr s)))
   \<and> (list_all (\<lambda>c. unat c < 0x80) s \<longrightarrow>
        shortId (Some (CStr s)) = spec_deriveId (utf8_bytes s))"
  using shortId_of_string_spec [of s] shortId_of_string_pattern [of s] shortId_of_string_ascii [of s]
  by (simp add: shortId_def)

lemma ascii_10001: "ascii ''10001'' = [0x31, 0x30, 0x30, 0x30, 0x31]"
  by (simp add: ascii_def)

lemma hash_10001: "spec_fnv1a_units [0x31, 0x30, 0x30, 0x30, 0x31] = 1777631151"
  by (simp add: spec_fnv1a_units_def)

lemma digits_10001: "toString36 1777631151 = ''tecsz3''"
  by (simp add: toString36.simps digit36_def)

lemma render_10001: "spec_render 1777631151 = ''tecsz3''"
  by (simp add: spec_render_def digits_10001 pad_left_def slice_last_def)

theorem shortId_reference_algorithm_witness:
  "list_all (\<lambda>c. unat c < 0x80) (ascii ''10001'')
   \<and> shortId (Some (CStr (ascii ''10001''))) = ''tecsz3''
   \<and> spec_deriveId (utf8_bytes (ascii ''10001'')) = ''tecsz3''
   \<and> matches_id_pattern ''tecsz3''"
proof -
  have small: "list_all (\<lambda>c. unat c < 0x80) (ascii ''10001'')"
    by (simp add: ascii_10001)
  note main = shortId_reference_algorithm [of "ascii ''10001''"]
  from main [THEN conjunct1] have v: "shortId (Some (CStr (ascii ''10001''))) = ''tecsz3''"
    unfolding ascii_10001 hash_10001 render_10001 .
  from main [THEN conjunct2, THEN conjunct2, THEN mp, OF small] v
  have r: "spec_deriveId (utf8_bytes (ascii ''10001'')) = ''tecsz3''" by simp
  from main [THEN conjunct2, THEN conjunct1] v
  have "matches_id_pattern ''tecsz3''" by simp
  with small v r show ?thesis by (intro conjI)
qed

text \<open>
  Claim C3 as stated fails outside ASCII: for the one-character string U+0100 the code
  folds the single code unit 0x100, the byte-wise reference folds the two bytes C4 80.
\<close>

theorem shortId_not_bytewise:
  "shortId (Some (CStr [0x100])) \<noteq> spec_deriveId (utf8_bytes [0x100])"
proof -
  have "shortId (Some (CStr [0x100])) = ''1ed4in''"
    by (simp add: shortId_def u0100_id)
  then show ?thesis unfolding u0100_bytewise_id by simp
qed

section \<open>The refresh\<close>

subsection \<open>The settled tasks\<close>

lemma filePath_inj: "filePath a = filePath b \<longleftrightarrow> a = b"
  by (simp add: filePath_def)

lemma filePath_image: "filePath a \<in> filePath ` S \<longleftrightarrow> a \<in> S"
  by (auto simp: filePath_inj)

lemma fetchTask_Inl:
  "fetchRaw e u = Inl err \<Longrightarrow> fetchTask e (f, u) (disk, sts) = (Rejected err, disk, sts)"
  by (simp add: fetchTask_def)

lemma fetchTask_Inr:
  "fetchRaw e u = Inr data \<Longrightarrow>
   fetchTask e (f, u) (disk, sts)
     = (Fulfilled f, disk(filePath f \<mapsto> \<lparr>content = data, mtimeMs = nowMs e\<rparr>),
        sts(f \<mapsto> status_line e f))"
  by (simp add: fetchTask_def writeFileRaw_def)

lemma allSettled_Cons_fst:
  "fst (allSettled e (entry # rest) acc)
     = fst (fetchTask e entry acc) # fst (allSettled e rest (snd (fetchTask e entry acc)))"
  by (simp split: prod.splits)

lemma allSettled_Cons_snd:
  "snd (allSettled e (entry # rest) acc) = snd (allSettled e rest (snd (fetchTask e entry acc)))"
  by (simp split: prod.splits)

declare allSettled.simps(2) [simp del]

lemma allSettled_files_other:
  "p \<notin> filePath ` fst ` set entries \<Longrightarrow>
   fst (snd (allSettled e entries (disk, sts))) p = disk p"
proof (induction entries arbitrary: disk sts)
  case Nil
  then show ?case by simp
next
  case (Cons entry rest)
  obtain f u where entry: "entry = (f, u)" by (cases entry)
  from Cons.prems have p: "p \<noteq> filePath f" and rest: "p \<notin> filePath ` fst ` set rest"
    by (auto simp: entry)
  show ?case
  proof (cases "fetchRaw e u")
    case (Inl err)
    with Cons.IH [OF rest] show ?thesis
      by (simp add: entry allSettled_Cons_snd fetchTask_Inl)
  next
    case (Inr data)
    with Cons.IH [OF rest] p show ?thesis
      by (simp add: entry allSettled_Cons_snd fetchTask_Inr)
  qed
qed

lemma allSettled_statuses_other:
  "k \<notin> fst ` set entries \<Longrightarrow>
   snd (snd (allSettled e entries (disk, sts))) k = sts k"
proof (induction entries arbitrary: disk sts)
  case Nil
  then show ?case by simp
next
  case (Cons entry rest)
  obtain f u where entry: "entry = (f, u)" by (cases entry)
  from Cons.prems have k: "k \<noteq> f" and rest: "k \<notin> fst ` set rest"
    by (auto simp: entry)
  show ?case
  proof (cases "fetchRaw e u")
    case (Inl err)
    with Cons.IH [OF rest] show ?thesis
      by (simp add: entry allSettled_Cons_snd fetchTask_Inl)
  next
    case (Inr data)
    with Cons.IH [OF rest] k show ?thesis
      by (simp add: entry allSettled_Cons_snd fetchTask_Inr)
  qed
qed

lemma allSettled_rejected_iff:
  "list_ex is_rejected (fst (allSettled e entries acc))
     \<longleftrightarrow> list_ex (\<lambda>entry. isl (fetchRaw e (snd entry))) entries"
proof (induction entries arbitrary: acc)
  case Nil
  then show ?case by simp
next
  case (Cons entry rest)
  obtain f u where entry: "entry = (f, u)" by (cases entry)
  obtain disk sts where acc: "acc = (disk, sts)" by (cases acc)
  show ?case
  proof (cases "fetchRaw e u")
    case (Inl err)
    then show ?thesis
      by (simp add: entry acc allSettled_Cons_fst fetchTask_Inl Cons.IH)
  next
    case (Inr data)
    then show ?thesis
      by (simp add: entry acc allSettled_Cons_fst fetchTask_Inr Cons.IH)
  qed
qed

lemma allSettled_fulfilled:
  assumes "distinct (map fst entries)" and "(f, u) \<in> set entries" and "fetchRaw e u = Inr data"
  shows "fst (snd (allSettled e entries (disk, sts))) (filePath f)
           = Some \<lparr>content = data, mtimeMs = nowMs e\<rparr>
         \<and> snd (snd (allSettled e entries (disk, sts))) f = Some (status_line e f)"
  using assms
proof (induction entries arbitrary: disk sts)
  case Nil
  then show ?case by simp
next
  case (Cons entry rest)
  obtain f0 u0 where entry: "entry = (f0, u0)" by (cases entry)
  obtain r disk1 sts1 where task: "fetchTask e entry (disk, sts) = (r, disk1, sts1)"
    by (cases "fetchTask e entry (disk, sts)")
  have unfold: "snd (allSettled e (entry # rest) (disk, sts)) = snd (allSettled e rest (disk1, sts1))"
    by (simp add: allSettled_Cons_snd task)
  from Cons.prems have fresh: "f0 \<notin> fst ` set rest" and drest: "distinct (map fst rest)"
    by (auto simp: entry)
  show ?case
  proof (cases "(f, u) \<in> set rest")
    case True
    from Cons.IH [OF drest True Cons.prems(3)] show ?thesis
      unfolding unfold by simp
  next
    case False
    with Cons.prems have same: "f0 = f" "u0 = u" by (auto simp: entry)
    from task Cons.prems(3) have d1: "disk1 (filePath f) = Some \<lparr>content = data, mtimeMs = nowMs e\<rparr>"
      and s1: "sts1 f = Some (status_line e f)"
      by (auto simp: entry same fetchTask_Inr)
    from fresh have "filePath f \<notin> filePath ` fst ` set rest"
      by (simp add: same filePath_image)
    from allSettled_files_other [OF this] allSettled_statuses_other [of f rest] fresh d1 s1
    show ?thesis
      unfolding unfold by (simp add: same)
  qed
qed

lemma allSettled_rejected:
  assumes "distinct (map fst entries)" and "(f, u) \<in> set entries" and "fetchRaw e u = Inl err"
  shows "fst (snd (allSettled e entries (disk, sts))) (filePath f) = disk (filePath f)
         \<and> snd (snd (allSettled e entries (disk, sts))) f = sts f"
  using assms
proof (induction entries arbitrary: disk sts)
  case Nil
  then show ?case by simp
next
  case (Cons entry rest)
  obtain f0 u0 where entry: "entry = (f0, u0)" by (cases entry)
  obtain r disk1 sts1 where task: "fetchTask e entry (disk, sts) = (r, disk1, sts1)"
    by (cases "fetchTask e entry (disk, sts)")
  have unfold: "snd (allSettled e (entry # rest) (disk, sts)) = snd (allSettled e rest (disk1, sts1))"
    by (simp add: allSettled_Cons_snd task)
  from Cons.prems have fresh: "f0 \<notin> fst ` set rest" and drest: "distinct (map fst rest)"
    by (auto simp: entry)
  show ?case
  proof (cases "(f, u) \<in> set rest")
    case True
    then have "f \<in> fst ` set rest" by force
    with fresh have ne: "f \<noteq> f0" by blast
    have "disk1 (filePath f) = disk (filePath f) \<and> sts1 f = sts f"
    proof (cases "fetchRaw e u0")
      case (Inl a)
      with task show ?thesis by (simp add: entry fetchTask_Inl)
    next
      case (Inr b)
      with task ne show ?thesis by (auto simp: entry fetchTask_Inr filePath_inj)
    qed
    with Cons.IH [OF drest True Cons.prems(3), of disk1 sts1] show ?thesis
      unfolding unfold by simp
  next
    case False
    with Cons.prems have same: "f0 = f" "u0 = u" by (auto simp: entry)
    from task Cons.prems(3) have d1: "disk1 = disk" and s1: "sts1 = sts"
      by (auto simp: entry same fetchTask_Inl)
    from fresh have "filePath f \<notin> filePath ` fst ` set rest"
      by (simp add: same filePath_image)
    from allSettled_files_other [OF this] allSettled_statuses_other [of f rest] fresh
    show ?thesis
      unfolding unfold by (simp add: same d1 s1)
  qed
qed

lemma distinct_ENDPOINTS: "distinct (map fst ENDPOINTS)"
  by (simp add: ENDPOINTS_def)

lemma all_txt_not_source: "filePath ''all.txt'' \<notin> filePath ` fst ` set ENDPOINTS"
  by (simp add: ENDPOINTS_def filePath_inj)

lemma all_txt_not_name: "''all.txt'' \<notin> fst ` set ENDPOINTS"
  by (simp add: ENDPOINTS_def)

text \<open>
  The order in which the tasks settle does not matter: any two orders of the same entries
  leave the same files and the same status map.
\<close>

lemma allSettled_order_irrelevant:
  assumes d: "distinct (map fst entries)" and p: "mset entries' = mset entries"
  shows "snd (allSettled e entries' (disk, sts)) = snd (allSettled e entries (disk, sts))"
proof -
  from p have s: "set entries' = set entries" by (rule mset_eq_setD)
  from p have "mset (map fst entries') = mset (map fst entries)" by simp
  with d have d': "distinct (map fst entries')" by (metis mset_eq_imp_distinct_iff)
  have files: "fst (snd (allSettled e entries' (disk, sts))) q
             = fst (snd (allSettled e entries (disk, sts))) q" for q
  proof (cases "q \<in> filePath ` fst ` set entries")
    case False
    with allSettled_files_other [of q entries e disk sts]
      allSettled_files_other [of q entries' e disk sts] s
    show ?thesis by simp
  next
    case True
    then obtain f u where fu: "(f, u) \<in> set entries" "q = filePath f" by auto
    show ?thesis
    proof (cases "fetchRaw e u")
      case (Inl err)
      from allSettled_rejected [OF d fu(1) Inl, of disk sts]
        allSettled_rejected [OF d' fu(1) [folded s] Inl, of disk sts]
      show ?thesis by (simp add: fu(2))
    next
      case (Inr data)
      from allSettled_fulfilled [OF d fu(1) Inr, of disk sts]
        allSettled_fulfilled [OF d' fu(1) [folded s] Inr, of disk sts]
      show ?thesis by (simp add: fu(2))
    qed
  qed
  have statuses: "snd (snd (allSettled e entries' (disk, sts))) k
             = snd (snd (allSettled e entries (disk, sts))) k" for k
  proof (cases "k \<in> fst ` set entries")
    case False
    with allSettled_statuses_other [of k entries e disk sts]
      allSettled_statuses_other [of k entries' e disk sts] s
    show ?thesis by simp
  next
    case True
    then obtain u where fu: "(k, u) \<in> set entries" by auto
    show ?thesis
    proof (cases "fetchRaw e u")
      case (Inl err)
      from allSettled_rejected [OF d fu Inl, of disk sts]
        allSettled_rejected [OF d' fu [folded s] Inl, of disk sts]
      show ?thesis by simp
    next
      case (Inr data)
      from allSettled_fulfilled [OF d fu Inr, of disk sts]
        allSettled_fulfilled [OF d' fu [folded s] Inr, of disk sts]
      show ?thesis by simp
    qed
  qed
  from files statuses show ?thesis
    by (intro prod_eqI ext)
qed

subsection \<open>The merged file and the listeners\<close>

lemma insert_later_total:
  "\<exists>zs. insert_later (\<lambda>a b. Inr (c a b)) x placed = Inr zs \<and> mset zs = add_mset x (mset placed)"
proof (induction placed)
  case Nil
  then show ?case by simp
next
  case (Cons y placed)
  then obtain zs where "insert_later (\<lambda>a b. Inr (c a b)) x placed = Inr zs"
    and "mset zs = add_mset x (mset placed)" by blast
  then show ?case by simp
qed

lemma sort_loop_total:
  "\<exists>ys. sort_loop (\<lambda>a b. Inr (c a b)) placed xs = Inr ys \<and> mset ys = mset placed + mset xs"
proof (induction xs arbitrary: placed)
  case Nil
  then show ?case by simp
next
  case (Cons x xs)
  from insert_later_total [of c x placed] obtain zs
    where zs: "insert_later (\<lambda>a b. Inr (c a b)) x placed = Inr zs" "mset zs = add_mset x (mset placed)"
    by blast
  from Cons.IH [of zs] obtain ys
    where "sort_loop (\<lambda>a b. Inr (c a b)) zs xs = Inr ys" "mset ys = mset zs + mset xs" by blast
  with zs show ?case by simp
qed

lemma array_sort_total:
  "\<exists>ys. array_sort (\<lambda>a b. Inr (c a b)) xs = Inr ys \<and> mset ys = mset xs"
  using sort_loop_total [of c "[]" xs] by (simp add: array_sort_def)

lemma sortByName_total: "\<exists>ys. sortByName e gs = Inr ys \<and> mset ys = mset gs"
  unfolding sortByName_def by (rule array_sort_total)

lemma map_result_total:
  "\<forall>x\<in>set xs. f x = Inr (g x) \<Longrightarrow> map_result f xs = Inr (map g xs)"
  by (induction xs) simp_all

lemma map_result_map: "map_result f (map g xs) = map_result (\<lambda>x. f (g x)) xs"
  by (induction xs) (simp_all cong: sum.case_cong)

lemma generateAllMerged_ok:
  assumes "\<forall>n\<in>set (map fst ENDPOINTS).
             \<exists>f. disk (filePath n) = Some f \<and> json_parse e (content f) = Inr (snap n)"
  shows "\<exists>merged.
           sortByName e (concat (map (\<lambda>n. flatten_snapshot (snap n)) (map fst ENDPOINTS))) = Inr merged
         \<and> mset merged = mset (concat (map (\<lambda>n. flatten_snapshot (snap n)) (map fst ENDPOINTS)))
         \<and> generateAllMerged e disk
             = Inr (disk(filePath ''all.txt'' \<mapsto>
                  \<lparr>content = json_stringify e (allPayload merged), mtimeMs = nowMs e\<rparr>))"
proof -
  let ?names = "map fst ENDPOINTS"
  let ?text = "\<lambda>n. content (the (disk (filePath n)))"
  have "\<forall>n\<in>set ?names. readFile disk (filePath n) = Inr (?text n)"
    using assms by (auto simp: readFile_def)
  then have reads: "map_result (\<lambda>n. readFile disk (filePath n)) ?names = Inr (map ?text ?names)"
    by (rule map_result_total)
  have "\<forall>n\<in>set ?names. json_parse e (?text n) = Inr (snap n)"
    using assms by auto
  then have "map_result (\<lambda>n. json_parse e (?text n)) ?names = Inr (map snap ?names)"
    by (rule map_result_total)
  then have parses: "map_result (json_parse e) (map ?text ?names) = Inr (map snap ?names)"
    by (simp add: map_result_map)
  let ?all = "concat (map (\<lambda>n. flatten_snapshot (snap n)) ?names)"
  from sortByName_total [of e ?all] obtain merged
    where m: "sortByName e ?all = Inr merged" "mset merged = mset ?all" by blast
  have "concat (map flatten_snapshot (map snap ?names)) = ?all"
    by (simp add: comp_def)
  with reads parses m have "generateAllMerged e disk
      = Inr (disk(filePath ''all.txt'' \<mapsto>
           \<lparr>content = json_stringify e (allPayload merged), mtimeMs = nowMs e\<rparr>))"
    by (simp add: generateAllMerged_def writeFileRaw_def)
  with m show ?thesis by blast
qed

lemma notifyListeners_no_throw:
  "\<forall>fn\<in>set fns. \<forall>c. fst (fn sts c) = None \<Longrightarrow>
   notifyListeners fns sts c = (None, foldl (\<lambda>c fn. snd (fn sts c)) c fns)"
proof (induction fns arbitrary: c)
  case Nil
  then show ?case by simp
next
  case (Cons fn fns)
  obtain r c' where step: "fn sts c = (r, c')" by (cases "fn sts c")
  from Cons.prems have "fst (fn sts c) = None" by simp
  with step have "r = None" by simp
  with Cons step show ?case by simp
qed

lemma notifyListeners_throw:
  assumes "\<forall>fn\<in>set pre. \<forall>c. fst (fn sts c) = None"
    and "fst (fn sts (foldl (\<lambda>c g. snd (g sts c)) c pre)) = Some err"
  shows "notifyListeners (pre @ fn # post) sts c
           = (Some err, snd (fn sts (foldl (\<lambda>c g. snd (g sts c)) c pre)))"
  using assms
proof (induction pre arbitrary: c)
  case Nil
  obtain r c' where step: "fn sts c = (r, c')" by (cases "fn sts c")
  with Nil show ?case by simp
next
  case (Cons g pre)
  obtain r c' where step: "g sts c = (r, c')" by (cases "g sts c")
  from Cons.prems have "fst (g sts c) = None" by simp
  with step have "r = None" by simp
  with Cons step show ?case by simp
qed

subsection \<open>The branches of refreshOnce\<close>

lemma refreshOnce_busy: "isRefreshing st \<Longrightarrow> refreshOnce e st = (InProgress, st)"
  by (simp add: refreshOnce_def)

lemma refreshOnce_idle:
  "\<not> isRefreshing st \<Longrightarrow>
   refreshOnce e st
     = (fst (refresh_body e (st\<lparr>isRefreshing := True\<rparr>)),
        (snd (refresh_body e (st\<lparr>isRefreshing := True\<rparr>)))\<lparr>isRefreshing := False\<rparr>)"
  by (simp add: refreshOnce_def split: prod.splits)

lemma refresh_body_partial:
  assumes "list_ex (\<lambda>entry. isl (fetchRaw e (snd entry))) ENDPOINTS"
  shows "refresh_body e st
           = (Completed True (snd (snd (allSettled e ENDPOINTS (files st, Map.empty)))),
              st\<lparr>files := fst (snd (allSettled e ENDPOINTS (files st, Map.empty)))\<rparr>)"
proof -
  obtain results disk1 sts1 where S: "allSettled e ENDPOINTS (files st, Map.empty) = (results, disk1, sts1)"
    by (cases "allSettled e ENDPOINTS (files st, Map.empty)")
  from allSettled_rejected_iff [of e ENDPOINTS "(files st, Map.empty)"] assms S
  have "list_ex is_rejected results" by simp
  with S show ?thesis by (simp add: refresh_body_def ensureDir_def)
qed

lemma refresh_body_merged:
  assumes "\<not> list_ex (\<lambda>entry. isl (fetchRaw e (snd entry))) ENDPOINTS"
    and "generateAllMerged e (fst (snd (allSettled e ENDPOINTS (files st, Map.empty)))) = Inr disk2"
  shows "refresh_body e st
           = (Completed False
                ((snd (snd (allSettled e ENDPOINTS (files st, Map.empty))))
                   (''all.txt'' \<mapsto> status_line e ''all.txt'')),
              st\<lparr>files := disk2,
                 cache := snd (notifyListeners (listeners st)
                   ((snd (snd (allSettled e ENDPOINTS (files st, Map.empty))))
                      (''all.txt'' \<mapsto> status_line e ''all.txt''))
                   (cache st))\<rparr>)"
proof -
  obtain results disk1 sts1 where S: "allSettled e ENDPOINTS (files st, Map.empty) = (results, disk1, sts1)"
    by (cases "allSettled e ENDPOINTS (files st, Map.empty)")
  from allSettled_rejected_iff [of e ENDPOINTS "(files st, Map.empty)"] assms(1) S
  have "\<not> list_ex is_rejected results" by simp
  with S assms(2) show ?thesis
    by (simp add: refresh_body_def ensureDir_def Let_def split: prod.splits)
qed

lemma refresh_body_merge_failed:
  assumes "\<not> list_ex (\<lambda>entry. isl (fetchRaw e (snd entry))) ENDPOINTS"
    and "generateAllMerged e (fst (snd (allSettled e ENDPOINTS (files st, Map.empty)))) = Inl err"
  shows "refresh_body e st
           = (Failed (message_or_string err) (snd (snd (allSettled e ENDPOINTS (files st, Map.empty)))),
              st\<lparr>files := fst (snd (allSettled e ENDPOINTS (files st, Map.empty)))\<rparr>)"
proof -
  obtain results disk1 sts1 where S: "allSettled e ENDPOINTS (files st, Map.empty) = (results, disk1, sts1)"
    by (cases "allSettled e ENDPOINTS (files st, Map.empty)")
  from allSettled_rejected_iff [of e ENDPOINTS "(files st, Map.empty)"] assms(1) S
  have "\<not> list_ex is_rejected results" by simp
  with S assms(2) show ?thesis
    by (simp add: refresh_body_def ensureDir_def Let_def)
qed

lemma refresh_body_flag: "isRefreshing (snd (refresh_body e st)) = isRefreshing st"
  by (simp add: refresh_body_def ensureDir_def Let_def split: prod.splits sum.splits)

lemma refresh_body_listeners: "listeners (snd (refresh_body e st)) = listeners st"
  by (simp add: refresh_body_def ensureDir_def Let_def split: prod.splits sum.splits)

lemma refresh_body_statuses:
  "result_statuses (fst (refresh_body e st)) k =
     (if k = ''all.txt'' \<and> (\<exists>m. fst (refresh_body e st) = Completed False m)
      then Some (status_line e ''all.txt'')
      else snd (snd (allSettled e ENDPOINTS (files st, Map.empty))) k)"
  by (auto simp add: refresh_body_def ensureDir_def Let_def split: prod.splits sum.splits)

text \<open>
  Claim C2. Called while the flag \<open>isRefreshing\<close> is set, \<open>refreshOnce\<close> returns the
  in-progress signal and leaves the whole state as it was: no file is written, no status
  is recorded, no listener runs.
\<close>

theorem refreshOnce_in_progress:
  "isRefreshing st \<Longrightarrow> refreshOnce e st = (InProgress, st)"
  by (rule refreshOnce_busy)

text \<open>
  Claim C5. Every run of \<open>refreshOnce\<close> that enters the refresh runs the body with the flag
  set, the body leaves the flag set on each of its exits (any fetch rejected, the merge
  throwing, a listener throwing, or success), and the \<open>finally\<close> clause returns the state
  of the body with the flag cleared.
\<close>

theorem refreshOnce_clears_flag:
  "\<not> isRefreshing st \<Longrightarrow>
   isRefreshing (snd (refresh_body e (st\<lparr>isRefreshing := True\<rparr>)))
   \<and> snd (refreshOnce e st)
       = (snd (refresh_body e (st\<lparr>isRefreshing := True\<rparr>)))\<lparr>isRefreshing := False\<rparr>
   \<and> \<not> isRefreshing (snd (refreshOnce e st))"
  by (simp add: refreshOnce_idle refresh_body_flag)

text \<open>
  Claim C1. When \<open>refreshOnce\<close> is entered and at least one of the four fetches fails, the
  result carries \<open>anyRejected = true\<close> and no status for \<open>all.txt\<close>, the merged file
  \<open>all.txt\<close> is what it was before, the cache is what it was before (no listener ran), and
  every source whose fetch succeeded has its snapshot file replaced by the fetched text.
\<close>

theorem refreshOnce_partial_failure:
  assumes idle: "\<not> isRefreshing st"
    and fail: "\<exists>entry\<in>set ENDPOINTS. isl (fetchRaw e (snd entry))"
  shows "(\<exists>sts. fst (refreshOnce e st) = Completed True sts \<and> sts ''all.txt'' = None)
       \<and> files (snd (refreshOnce e st)) (filePath ''all.txt'') = files st (filePath ''all.txt'')
       \<and> cache (snd (refreshOnce e st)) = cache st
       \<and> (\<forall>entry\<in>set ENDPOINTS. \<forall>data. fetchRaw e (snd entry) = Inr data \<longrightarrow>
             files (snd (refreshOnce e st)) (filePath (fst entry))
               = Some \<lparr>content = data, mtimeMs = nowMs e\<rparr>)"
proof -
  let ?st1 = "st\<lparr>isRefreshing := True\<rparr>"
  let ?S = "allSettled e ENDPOINTS (files st, Map.empty)"
  from fail have ex: "list_ex (\<lambda>entry. isl (fetchRaw e (snd entry))) ENDPOINTS"
    by (simp add: list_ex_iff)
  have body: "refresh_body e ?st1 = (Completed True (snd (snd ?S)), ?st1\<lparr>files := fst (snd ?S)\<rparr>)"
    using refresh_body_partial [OF ex, of ?st1] by simp
  have res: "fst (refreshOnce e st) = Completed True (snd (snd ?S))"
    and fs: "files (snd (refreshOnce e st)) = fst (snd ?S)"
    and ca: "cache (snd (refreshOnce e st)) = cache st"
    by (simp_all add: refreshOnce_idle [OF idle] body)
  have "snd (snd ?S) ''all.txt'' = None"
    using allSettled_statuses_other [OF all_txt_not_name, of e "files st" Map.empty] by simp
  moreover have "fst (snd ?S) (filePath ''all.txt'') = files st (filePath ''all.txt'')"
    by (rule allSettled_files_other [OF all_txt_not_source])
  moreover have "\<forall>entry\<in>set ENDPOINTS. \<forall>data. fetchRaw e (snd entry) = Inr data \<longrightarrow>
      fst (snd ?S) (filePath (fst entry)) = Some \<lparr>content = data, mtimeMs = nowMs e\<rparr>"
  proof (intro ballI allI impI)
    fix entry data
    assume "entry \<in> set ENDPOINTS" and "fetchRaw e (snd entry) = Inr data"
    then show "fst (snd ?S) (filePath (fst entry)) = Some \<lparr>content = data, mtimeMs = nowMs e\<rparr>"
      using allSettled_fulfilled [OF distinct_ENDPOINTS, of "fst entry" "snd entry" e data "files st" Map.empty]
      by simp
  qed
  ultimately show ?thesis
    unfolding res fs ca by blast
qed

lemma refreshOnce_statuses_entry:
  assumes idle: "\<not> isRefreshing st" and mem: "entry \<in> set ENDPOINTS"
  shows "result_statuses (fst (refreshOnce e st)) (fst entry)
           = snd (snd (allSettled e ENDPOINTS (files st, Map.empty))) (fst entry)"
proof -
  from mem all_txt_not_name have ne: "fst entry \<noteq> ''all.txt''" by force
  show ?thesis
    using refresh_body_statuses [of e "st\<lparr>isRefreshing := True\<rparr>" "fst entry"] ne
    by (simp add: refreshOnce_idle [OF idle])
qed

lemma refreshOnce_entry_rejected:
  assumes idle: "\<not> isRefreshing st" and mem: "entry \<in> set ENDPOINTS"
    and rej: "fetchRaw e (snd entry) = Inl err"
  shows "result_statuses (fst (refreshOnce e st)) (fst entry) = None"
    and "files (snd (refreshOnce e st)) (filePath (fst entry)) = files st (filePath (fst entry))"
proof -
  let ?st1 = "st\<lparr>isRefreshing := True\<rparr>"
  let ?S = "allSettled e ENDPOINTS (files st, Map.empty)"
  from rej have "isl (fetchRaw e (snd entry))" by simp
  with mem have ex: "list_ex (\<lambda>entry. isl (fetchRaw e (snd entry))) ENDPOINTS"
    unfolding list_ex_iff by blast
  have body: "refresh_body e ?st1 = (Completed True (snd (snd ?S)), ?st1\<lparr>files := fst (snd ?S)\<rparr>)"
    using refresh_body_partial [OF ex, of ?st1] by simp
  have fs: "files (snd (refreshOnce e st)) = fst (snd ?S)"
    by (simp add: refreshOnce_idle [OF idle] body)
  note settled = allSettled_rejected [OF distinct_ENDPOINTS, of "fst entry" "snd entry" e err "files st" Map.empty]
  from settled mem rej show "result_statuses (fst (refreshOnce e st)) (fst entry) = None"
    by (simp add: refreshOnce_statuses_entry [OF idle mem])
  from settled mem rej
  show "files (snd (refreshOnce e st)) (filePath (fst entry)) = files st (filePath (fst entry))"
    by (simp add: fs)
qed

lemma refreshOnce_entry_fulfilled:
  assumes idle: "\<not> isRefreshing st" and mem: "entry \<in> set ENDPOINTS"
    and ful: "fetchRaw e (snd entry) = Inr data"
  shows "result_statuses (fst (refreshOnce e st)) (fst entry) = Some (status_line e (fst entry))"
  using allSettled_fulfilled [OF distinct_ENDPOINTS, of "fst entry" "snd entry" e data "files st" Map.empty]
    mem ful
  by (simp add: refreshOnce_statuses_entry [OF idle mem])

text \<open>
  Claim C6, as the code has it. For a source whose fetch fails the status map gets no
  entry at all (the failure shows only in \<open>anyRejected\<close>) and its file is not written;
  for a source whose fetch succeeds the map holds its success line.
\<close>

theorem refreshOnce_status_entries:
  assumes idle: "\<not> isRefreshing st"
  shows "\<forall>entry\<in>set ENDPOINTS.
           (case fetchRaw e (snd entry) of
              Inl err \<Rightarrow>
                result_statuses (fst (refreshOnce e st)) (fst entry) = None
                \<and> files (snd (refreshOnce e st)) (filePath (fst entry)) = files st (filePath (fst entry))
            | Inr data \<Rightarrow>
                result_statuses (fst (refreshOnce e st)) (fst entry) = Some (status_line e (fst entry)))"
proof
  fix entry
  assume mem: "entry \<in> set ENDPOINTS"
  show "case fetchRaw e (snd entry) of
          Inl err \<Rightarrow>
            result_statuses (fst (refreshOnce e st)) (fst entry) = None
            \<and> files (snd (refreshOnce e st)) (filePath (fst entry)) = files st (filePath (fst entry))
        | Inr data \<Rightarrow>
            result_statuses (fst (refreshOnce e st)) (fst entry) = Some (status_line e (fst entry))"
  proof (cases "fetchRaw e (snd entry)")
    case (Inl err)
    with refreshOnce_entry_rejected [OF idle mem Inl] show ?thesis by simp
  next
    case (Inr data)
    with refreshOnce_entry_fulfilled [OF idle mem Inr] show ?thesis by simp
  qed
qed

lemma idle_state_simps:
  "isRefreshing idle_state = False" "listeners idle_state = [invalidate_cache]"
  "files idle_state = Map.empty" "cache idle_state = warm_cache"
  by (simp_all add: idle_state_def addRefreshListener_def)

lemma first_entry: "hd ENDPOINTS \<in> set ENDPOINTS"
  by (simp add: ENDPOINTS_def)

lemma first_fails: "isl (fetchRaw env_partial (snd (hd ENDPOINTS)))"
  by (simp add: env_partial_def env_ok_def fetch_first_fails_def)

lemma second_entry: "ENDPOINTS ! 1 \<in> set ENDPOINTS"
  by (simp add: ENDPOINTS_def)

lemma second_ok: "fetchRaw env_partial (snd (ENDPOINTS ! 1)) = Inr ''UBISOFT''"
  by (simp add: env_partial_def env_ok_def fetch_first_fails_def fetch_all_ok_def ENDPOINTS_def sample_texts_def)

theorem refreshOnce_in_progress_witness:
  "isRefreshing busy_state \<and> refreshOnce env_ok busy_state = (InProgress, busy_state)"
  using refreshOnce_in_progress [of busy_state env_ok] by (simp add: busy_state_def)

theorem refreshOnce_partial_failure_witness:
  "\<not> isRefreshing idle_state
   \<and> isl (fetchRaw env_partial (snd (hd ENDPOINTS)))
   \<and> files (snd (refreshOnce env_partial idle_state)) (filePath ''all.txt'') = None
   \<and> cache (snd (refreshOnce env_partial idle_state)) = warm_cache
   \<and> files (snd (refreshOnce env_partial idle_state)) (filePath ''ubisoft-classics-list.txt'')
       = Some \<lparr>content = ''UBISOFT'', mtimeMs = 1700000000000\<rparr>"
proof -
  have idle: "\<not> isRefreshing idle_state" by (simp add: idle_state_simps)
  have fail: "\<exists>entry\<in>set ENDPOINTS. isl (fetchRaw env_partial (snd entry))"
    using first_entry first_fails by blast
  have name: "fst (ENDPOINTS ! 1) = ''ubisoft-classics-list.txt''"
    by (simp add: ENDPOINTS_def)
  have now: "nowMs env_partial = 1700000000000"
    by (simp add: env_partial_def env_ok_def)
  note main = refreshOnce_partial_failure [OF idle fail]
  from main have a: "files (snd (refreshOnce env_partial idle_state)) (filePath ''all.txt'')
      = files idle_state (filePath ''all.txt'')" by blast
  from main have c: "cache (snd (refreshOnce env_partial idle_state)) = cache idle_state" by blast
  from main have "\<forall>entry\<in>set ENDPOINTS. \<forall>data. fetchRaw env_partial (snd entry) = Inr data \<longrightarrow>
      files (snd (refreshOnce env_partial idle_state)) (filePath (fst entry))
        = Some \<lparr>content = data, mtimeMs = nowMs env_partial\<rparr>" by blast
  with second_entry second_ok
  have w: "files (snd (refreshOnce env_partial idle_state)) (filePath (fst (ENDPOINTS ! 1)))
      = Some \<lparr>content = ''UBISOFT'', mtimeMs = nowMs env_partial\<rparr>" by blast
  from idle first_fails a c w [unfolded name now] show ?thesis
    by (simp add: idle_state_simps)
qed


theorem refreshOnce_clears_flag_witness:
  "\<not> isRefreshing idle_state
   \<and> (\<exists>sts. fst (refreshOnce env_html idle_state) = Failed ''Unexpected token'' sts)
   \<and> \<not> isRefreshing (snd (refreshOnce env_html idle_state))"
proof -
  have idle: "\<not> isRefreshing idle_state" by (simp add: idle_state_simps)
  have "fst (refreshOnce env_html idle_state)
          = Failed ''Unexpected token'' (result_statuses (fst (refreshOnce env_html idle_state)))"
    by (simp add: refreshOnce_def refresh_body_def ensureDir_def idle_state_simps ENDPOINTS_def
        allSettled.simps fetchTask_def env_html_def env_ok_def fetch_html_def writeFileRaw_def
        generateAllMerged_def readFile_def filePath_def FULL_DIR_def sample_parse_def
        message_or_string_def)
  then have failed: "\<exists>sts. fst (refreshOnce env_html idle_state) = Failed ''Unexpected token'' sts"
    by (rule exI [where x = "result_statuses (fst (refreshOnce env_html idle_state))"])
  note flag = refreshOnce_clears_flag [OF idle, of env_html, THEN conjunct2, THEN conjunct2]
  show ?thesis by (intro conjI) (rule idle, rule failed, rule flag)
qed


text \<open>
  Claim C6 as stated fails: with the first fetch timing out, the returned status map has
  no entry for \<open>plus-games-list.txt\<close>.
\<close>

theorem refreshOnce_no_failure_status:
  "\<not> isRefreshing idle_state
   \<and> fetchRaw env_partial (snd (hd ENDPOINTS)) = Inl (NetworkError ''timeout of 30000ms exceeded'')
   \<and> fst (hd ENDPOINTS) = ''plus-games-list.txt''
   \<and> result_statuses (fst (refreshOnce env_partial idle_state)) ''plus-games-list.txt'' = None"
proof -
  have idle: "\<not> isRefreshing idle_state" by (simp add: idle_state_simps)
  have n0: "fst (hd ENDPOINTS) = ''plus-games-list.txt''" by (simp add: ENDPOINTS_def)
  have f0: "fetchRaw env_partial (snd (hd ENDPOINTS)) = Inl (NetworkError ''timeout of 30000ms exceeded'')"
    by (simp add: env_partial_def env_ok_def fetch_first_fails_def)
  from refreshOnce_entry_rejected(1) [OF idle first_entry f0] idle n0 f0 show ?thesis by simp
qed

theorem refreshOnce_status_entries_witness:
  "\<not> isRefreshing idle_state
   \<and> result_statuses (fst (refreshOnce env_partial idle_state)) ''plus-games-list.txt'' = None
   \<and> files (snd (refreshOnce env_partial idle_state)) (filePath ''plus-games-list.txt'') = None
   \<and> result_statuses (fst (refreshOnce env_partial idle_state)) ''ubisoft-classics-list.txt''
       = Some ''ubisoft-classics-list.txt refreshed on 2023-11-14T22:13:20.000Z successfully''"
proof -
  have idle: "\<not> isRefreshing idle_state" by (simp add: idle_state_simps)
  have n0: "fst (hd ENDPOINTS) = ''plus-games-list.txt''" by (simp add: ENDPOINTS_def)
  have n1: "fst (ENDPOINTS ! 1) = ''ubisoft-classics-list.txt''" by (simp add: ENDPOINTS_def)
  have f0: "fetchRaw env_partial (snd (hd ENDPOINTS)) = Inl (NetworkError ''timeout of 30000ms exceeded'')"
    by (simp add: env_partial_def env_ok_def fetch_first_fails_def)
  have line: "status_line env_partial ''ubisoft-classics-list.txt''
      = ''ubisoft-classics-list.txt refreshed on 2023-11-14T22:13:20.000Z successfully''"
    by (simp add: status_line_def env_partial_def env_ok_def)
  note main = refreshOnce_status_entries [OF idle, of env_partial]
  from main [THEN bspec, OF first_entry]
  have a: "result_statuses (fst (refreshOnce env_partial idle_state)) ''plus-games-list.txt'' = None
      \<and> files (snd (refreshOnce env_partial idle_state)) (filePath ''plus-games-list.txt'') = None"
    unfolding f0 n0 by (simp add: idle_state_simps)
  from main [THEN bspec, OF second_entry]
  have b: "result_statuses (fst (refreshOnce env_partial idle_state)) ''ubisoft-classics-list.txt''
      = Some ''ubisoft-classics-list.txt refreshed on 2023-11-14T22:13:20.000Z successfully''"
    unfolding second_ok n1 line by simp
  from idle a b show ?thesis by blast
qed

subsection \<open>A refresh in which every source succeeds\<close>

lemma refreshOnce_all_ok:
  assumes idle: "\<not> isRefreshing st"
    and ok: "\<forall>entry\<in>set ENDPOINTS.
               \<exists>data snap. fetchRaw e (snd entry) = Inr data \<and> json_parse e data = Inr snap"
  shows "\<exists>sts. fst (refreshOnce e st) = Completed False sts
          \<and> (\<forall>k. sts k = (if k = ''all.txt'' \<or> k \<in> fst ` set ENDPOINTS
                            then Some (status_line e k) else None))
          \<and> cache (snd (refreshOnce e st)) = snd (notifyListeners (listeners st) sts (cache st))"
proof -
  let ?st1 = "st\<lparr>isRefreshing := True\<rparr>"
  let ?S = "allSettled e ENDPOINTS (files st, Map.empty)"
  let ?disk1 = "fst (snd ?S)"
  let ?sts1 = "snd (snd ?S)"
  let ?sts2 = "?sts1(''all.txt'' \<mapsto> status_line e ''all.txt'')"
  define snap where "snap n = projr (json_parse e (content (the (?disk1 (filePath n)))))" for n
  have none: "\<not> list_ex (\<lambda>entry. isl (fetchRaw e (snd entry))) ENDPOINTS"
    unfolding list_ex_iff using ok by fastforce
  have written: "?disk1 (filePath (fst entry)) = Some \<lparr>content = data, mtimeMs = nowMs e\<rparr>
                 \<and> ?sts1 (fst entry) = Some (status_line e (fst entry))"
    if "entry \<in> set ENDPOINTS" "fetchRaw e (snd entry) = Inr data" for entry data
    using allSettled_fulfilled [OF distinct_ENDPOINTS, of "fst entry" "snd entry" e data "files st" Map.empty]
      that by simp
  have "\<forall>n\<in>set (map fst ENDPOINTS).
          \<exists>f. ?disk1 (filePath n) = Some f \<and> json_parse e (content f) = Inr (snap n)"
  proof
    fix n
    assume "n \<in> set (map fst ENDPOINTS)"
    then obtain entry where entry: "entry \<in> set ENDPOINTS" "n = fst entry" by auto
    with ok obtain data s where d: "fetchRaw e (snd entry) = Inr data" "json_parse e data = Inr s"
      by blast
    from written [OF entry(1) d(1)] d(2)
    show "\<exists>f. ?disk1 (filePath n) = Some f \<and> json_parse e (content f) = Inr (snap n)"
      by (simp add: entry(2) snap_def)
  qed
  from generateAllMerged_ok [OF this] obtain disk2 where merged: "generateAllMerged e ?disk1 = Inr disk2"
    by blast
  have merged1: "generateAllMerged e (fst (snd (allSettled e ENDPOINTS (files ?st1, Map.empty)))) = Inr disk2"
    using merged by simp
  have body: "fst (refresh_body e ?st1) = Completed False ?sts2"
    "cache (snd (refresh_body e ?st1)) = snd (notifyListeners (listeners st) ?sts2 (cache st))"
    using refresh_body_merged [OF none merged1] by simp_all
  have res: "fst (refreshOnce e st) = Completed False ?sts2"
    and ca: "cache (snd (refreshOnce e st)) = snd (notifyListeners (listeners st) ?sts2 (cache st))"
    by (simp_all add: refreshOnce_idle [OF idle] body)
  have "?sts2 k = (if k = ''all.txt'' \<or> k \<in> fst ` set ENDPOINTS then Some (status_line e k) else None)"
    for k
  proof (cases "k = ''all.txt''")
    case True
    then show ?thesis by simp
  next
    case ne: False
    show ?thesis
    proof (cases "k \<in> fst ` set ENDPOINTS")
      case True
      then obtain entry where entry: "entry \<in> set ENDPOINTS" "k = fst entry" by auto
      with ok obtain data where "fetchRaw e (snd entry) = Inr data" by blast
      from written [OF entry(1) this] ne True show ?thesis by (simp add: entry(2))
    next
      case False
      from allSettled_statuses_other [OF False, of e "files st" Map.empty] ne False
      show ?thesis by simp
    qed
  qed
  with res ca show ?thesis by blast
qed

text \<open>
  What the code does with the listeners. When every fetch succeeds and every fetched text
  parses, the refresh returns \<open>anyRejected = false\<close> with a status line for each of the five
  files, whatever the listeners do. If no listener throws, all of them run in registration
  order on that status map. If one throws, the listeners before it have run, the error is
  swallowed, and the cache is left as the throwing listener left it: the listeners
  registered after it do not run.
\<close>

theorem refreshOnce_notifies_listeners:
  assumes idle: "\<not> isRefreshing st"
    and ok: "\<forall>entry\<in>set ENDPOINTS.
               \<exists>data snap. fetchRaw e (snd entry) = Inr data \<and> json_parse e data = Inr snap"
  shows "\<exists>sts. fst (refreshOnce e st) = Completed False sts
          \<and> (\<forall>k. sts k = (if k = ''all.txt'' \<or> k \<in> fst ` set ENDPOINTS
                            then Some (status_line e k) else None))
          \<and> ((\<forall>fn\<in>set (listeners st). \<forall>c. fst (fn sts c) = None) \<longrightarrow>
                cache (snd (refreshOnce e st))
                  = foldl (\<lambda>c fn. snd (fn sts c)) (cache st) (listeners st))
          \<and> (\<forall>pre fn post err.
                listeners st = pre @ fn # post
                \<and> (\<forall>g\<in>set pre. \<forall>c. fst (g sts c) = None)
                \<and> fst (fn sts (foldl (\<lambda>c g. snd (g sts c)) (cache st) pre)) = Some err \<longrightarrow>
                cache (snd (refreshOnce e st))
                  = snd (fn sts (foldl (\<lambda>c g. snd (g sts c)) (cache st) pre)))"
proof -
  from refreshOnce_all_ok [OF idle ok] obtain sts
    where res: "fst (refreshOnce e st) = Completed False sts"
      and sts: "\<forall>k. sts k = (if k = ''all.txt'' \<or> k \<in> fst ` set ENDPOINTS
                              then Some (status_line e k) else None)"
      and ca: "cache (snd (refreshOnce e st)) = snd (notifyListeners (listeners st) sts (cache st))"
    by blast
  have a: "cache (snd (refreshOnce e st)) = foldl (\<lambda>c fn. snd (fn sts c)) (cache st) (listeners st)"
    if "\<forall>fn\<in>set (listeners st). \<forall>c. fst (fn sts c) = None"
    using notifyListeners_no_throw [OF that, of "cache st"] by (simp add: ca)
  have b: "cache (snd (refreshOnce e st)) = snd (fn sts (foldl (\<lambda>c g. snd (g sts c)) (cache st) pre))"
    if "listeners st = pre @ fn # post" "\<forall>g\<in>set pre. \<forall>c. fst (g sts c) = None"
      "fst (fn sts (foldl (\<lambda>c g. snd (g sts c)) (cache st) pre)) = Some err"
    for pre fn post err
    using notifyListeners_throw [of pre sts fn "cache st" err post, OF that(2) that(3)]
    by (simp add: ca that(1))
  from res sts a b show ?thesis by blast
qed

lemma broken_first_state_simps:
  "isRefreshing broken_first_state = False"
  "listeners broken_first_state = [broken_listener, invalidate_cache]"
  "files broken_first_state = Map.empty" "cache broken_first_state = warm_cache"
  by (simp_all add: broken_first_state_def addRefreshListener_def)

lemma env_ok_fetch_parse:
  "\<forall>entry\<in>set ENDPOINTS.
     \<exists>data snap. fetchRaw env_ok (snd entry) = Inr data \<and> json_parse env_ok data = Inr snap"
  by (simp add: ENDPOINTS_def env_ok_def fetch_all_ok_def sample_texts_def sample_parse_def)

lemma warm_cache_not_cold: "all_view warm_cache \<noteq> None"
  by (simp add: warm_cache_def)

text \<open>
  Claim C7. The claim has every registered listener invoked after a refresh in which all
  sources succeed, a listener that throws not keeping the later ones from being invoked.
  The code does otherwise: with a throwing listener registered before the cache
  invalidation of the routes, a refresh in which every fetch succeeds returns normally
  with \<open>anyRejected = false\<close>, but the cache is still populated afterwards, although the
  invalidation, run on that very cache and status map, clears it: the second listener was
  never called. The one \<open>try\<close> of \<open>refresh_body\<close> encloses the whole loop over the
  listeners, not each call.
\<close>

theorem broken_listener_blocks_later_listeners:
  "listeners broken_first_state = [broken_listener, invalidate_cache]
   \<and> all_view (cache broken_first_state) \<noteq> None
   \<and> fst (refreshOnce env_ok broken_first_state)
       = Completed False (result_statuses (fst (refreshOnce env_ok broken_first_state)))
   \<and> all_view (cache (snd (refreshOnce env_ok broken_first_state))) \<noteq> None
   \<and> all_view (snd (invalidate_cache (result_statuses (fst (refreshOnce env_ok broken_first_state)))
        (cache (snd (refreshOnce env_ok broken_first_state))))) = None"
proof -
  have idle: "\<not> isRefreshing broken_first_state" by (simp add: broken_first_state_simps)
  from refreshOnce_all_ok [OF idle env_ok_fetch_parse] obtain sts
    where res: "fst (refreshOnce env_ok broken_first_state) = Completed False sts"
      and ca: "cache (snd (refreshOnce env_ok broken_first_state))
                 = snd (notifyListeners (listeners broken_first_state) sts (cache broken_first_state))"
    by blast
  have kept: "cache (snd (refreshOnce env_ok broken_first_state)) = warm_cache"
    unfolding ca by (simp add: broken_first_state_simps broken_listener_def)
  have r: "fst (refreshOnce env_ok broken_first_state)
       = Completed False (result_statuses (fst (refreshOnce env_ok broken_first_state)))"
    unfolding res by simp
  have inv: "all_view (snd (invalidate_cache (result_statuses (fst (refreshOnce env_ok broken_first_state)))
        (cache (snd (refreshOnce env_ok broken_first_state))))) = None"
    by (simp add: invalidate_cache_def)
  from r inv warm_cache_not_cold show ?thesis
    unfolding kept by (simp add: broken_first_state_simps)
qed

theorem refreshOnce_notifies_listeners_witness:
  "\<not> isRefreshing broken_first_state
   \<and> \<not> isRefreshing idle_state
   \<and> (\<exists>sts. fst (refreshOnce env_ok broken_first_state) = Completed False sts
          \<and> sts ''all.txt'' = Some ''all.txt refreshed on 2023-11-14T22:13:20.000Z successfully''
          \<and> sts ''plus-games-list.txt''
              = Some ''plus-games-list.txt refreshed on 2023-11-14T22:13:20.000Z successfully'')
   \<and> cache (snd (refreshOnce env_ok broken_first_state)) = warm_cache
   \<and> cache (snd (refreshOnce env_ok idle_state)) = cold_cache"
proof -
  have idle1: "\<not> isRefreshing broken_first_state" by (simp add: broken_first_state_simps)
  have idle2: "\<not> isRefreshing idle_state" by (simp add: idle_state_simps)
  have mem: "''plus-games-list.txt'' \<in> fst ` set ENDPOINTS" by (simp add: ENDPOINTS_def)
  have line: "status_line env_ok k = k @ '' refreshed on 2023-11-14T22:13:20.000Z successfully''" for k
    by (simp add: status_line_def env_ok_def)
  from refreshOnce_notifies_listeners [OF idle1 env_ok_fetch_parse] obtain sts
    where res: "fst (refreshOnce env_ok broken_first_state) = Completed False sts"
      and sts: "\<forall>k. sts k = (if k = ''all.txt'' \<or> k \<in> fst ` set ENDPOINTS
                              then Some (status_line env_ok k) else None)"
      and thrown: "\<forall>pre fn post err.
                listeners broken_first_state = pre @ fn # post
                \<and> (\<forall>g\<in>set pre. \<forall>c. fst (g sts c) = None)
                \<and> fst (fn sts (foldl (\<lambda>c g. snd (g sts c)) (cache broken_first_state) pre)) = Some err \<longrightarrow>
                cache (snd (refreshOnce env_ok broken_first_state))
                  = snd (fn sts (foldl (\<lambda>c g. snd (g sts c)) (cache broken_first_state) pre))"
    by blast
  from sts mem have s1: "sts ''all.txt'' = Some ''all.txt refreshed on 2023-11-14T22:13:20.000Z successfully''"
    and s2: "sts ''plus-games-list.txt''
              = Some ''plus-games-list.txt refreshed on 2023-11-14T22:13:20.000Z successfully''"
    by (simp_all add: line)
  from res s1 s2 have a: "\<exists>sts. fst (refreshOnce env_ok broken_first_state) = Completed False sts
          \<and> sts ''all.txt'' = Some ''all.txt refreshed on 2023-11-14T22:13:20.000Z successfully''
          \<and> sts ''plus-games-list.txt''
              = Some ''plus-games-list.txt refreshed on 2023-11-14T22:13:20.000Z successfully''"
    by (intro exI [where x = sts] conjI)
  from thrown [rule_format, of "[]" broken_listener "[invalidate_cache]" "TypeError ''listener failed''"]
  have b: "cache (snd (refreshOnce env_ok broken_first_state)) = warm_cache"
    by (simp add: broken_first_state_simps broken_listener_def)
  from refreshOnce_notifies_listeners [OF idle2 env_ok_fetch_parse] obtain sts'
    where quiet: "(\<forall>fn\<in>set (listeners idle_state). \<forall>c. fst (fn sts' c) = None) \<longrightarrow>
                cache (snd (refreshOnce env_ok idle_state))
                  = foldl (\<lambda>c fn. snd (fn sts' c)) (cache idle_state) (listeners idle_state)"
    by blast
  then have c: "cache (snd (refreshOnce env_ok idle_state)) = cold_cache"
    by (simp add: idle_state_simps invalidate_cache_def warm_cache_def cold_cache_def)
  from idle1 idle2 a b c show ?thesis by (intro conjI)
qed

text \<open>
  When every fetch succeeds and every fetched text parses, \<open>refreshOnce\<close>
  writes \<open>all.txt\<close> from the snapshots just fetched, and with the listener of the routes
  registered every entry of the cache is cleared.
\<close>

theorem refreshOnce_full_success:
  assumes idle: "\<not> isRefreshing st"
    and ok: "\<forall>entry\<in>set ENDPOINTS.
               \<exists>data. fetchRaw e (snd entry) = Inr data \<and> json_parse e data = Inr (snap (fst entry))"
    and routes: "listeners st = [invalidate_cache]"
  shows "\<exists>merged.
           sortByName e (concat (map (\<lambda>n. flatten_snapshot (snap n)) (map fst ENDPOINTS))) = Inr merged
         \<and> mset merged = mset (concat (map (\<lambda>n. flatten_snapshot (snap n)) (map fst ENDPOINTS)))
         \<and> files (snd (refreshOnce e st)) (filePath ''all.txt'')
             = Some \<lparr>content = json_stringify e (allPayload merged), mtimeMs = nowMs e\<rparr>
         \<and> cache (snd (refreshOnce e st))
             = \<lparr>included = None, classics = None, monthly = None, ubisoft = None, all_view = None\<rparr>"
proof -
  let ?st1 = "st\<lparr>isRefreshing := True\<rparr>"
  let ?S = "allSettled e ENDPOINTS (files st, Map.empty)"
  let ?disk1 = "fst (snd ?S)"
  let ?names = "map fst ENDPOINTS"
  have none: "\<not> list_ex (\<lambda>entry. isl (fetchRaw e (snd entry))) ENDPOINTS"
    unfolding list_ex_iff using ok by fastforce
  have "\<forall>n\<in>set ?names.
          \<exists>f. ?disk1 (filePath n) = Some f \<and> json_parse e (content f) = Inr (snap n)"
  proof
    fix n
    assume "n \<in> set ?names"
    then obtain entry where entry: "entry \<in> set ENDPOINTS" "n = fst entry" by auto
    with ok obtain data where d: "fetchRaw e (snd entry) = Inr data"
      "json_parse e data = Inr (snap (fst entry))" by blast
    from allSettled_fulfilled [OF distinct_ENDPOINTS, of "fst entry" "snd entry" e data "files st" Map.empty]
      entry(1) d
    show "\<exists>f. ?disk1 (filePath n) = Some f \<and> json_parse e (content f) = Inr (snap n)"
      by (simp add: entry(2))
  qed
  from generateAllMerged_ok [OF this] obtain merged
    where s: "sortByName e (concat (map (\<lambda>n. flatten_snapshot (snap n)) ?names)) = Inr merged"
      and m: "mset merged = mset (concat (map (\<lambda>n. flatten_snapshot (snap n)) ?names))"
      and g: "generateAllMerged e ?disk1
             = Inr (?disk1(filePath ''all.txt'' \<mapsto>
                  \<lparr>content = json_stringify e (allPayload merged), mtimeMs = nowMs e\<rparr>))"
    by blast
  have g1: "generateAllMerged e (fst (snd (allSettled e ENDPOINTS (files ?st1, Map.empty))))
             = Inr (?disk1(filePath ''all.txt'' \<mapsto>
                  \<lparr>content = json_stringify e (allPayload merged), mtimeMs = nowMs e\<rparr>))"
    using g by simp
  note body = refresh_body_merged [OF none g1]
  have fs: "files (snd (refreshOnce e st)) (filePath ''all.txt'')
             = Some \<lparr>content = json_stringify e (allPayload merged), mtimeMs = nowMs e\<rparr>"
    by (simp add: refreshOnce_idle [OF idle] body)
  have ca: "cache (snd (refreshOnce e st))
             = \<lparr>included = None, classics = None, monthly = None, ubisoft = None, all_view = None\<rparr>"
    by (simp add: refreshOnce_idle [OF idle] body routes invalidate_cache_def)
  from s m fs ca show ?thesis by (intro exI [where x = merged] conjI)
qed

lemma env_ok_fetch_snapshots:
  "\<forall>entry\<in>set ENDPOINTS.
     \<exists>data. fetchRaw env_ok (snd entry) = Inr data
          \<and> json_parse env_ok data = Inr (sample_snapshots (fst entry))"
  by (simp add: ENDPOINTS_def env_ok_def fetch_all_ok_def sample_texts_def sample_parse_def
      sample_snapshots_def)

lemma sample_flattened:
  "concat (map (\<lambda>n. flatten_snapshot (sample_snapshots n)) (map fst ENDPOINTS)) = sample_merged"
  by (simp add: ENDPOINTS_def sample_texts_def sample_snapshots_def sample_parse_def
      flatten_snapshot_def games_or_empty_def sample_merged_def)

lemma sample_sorted: "sortByName env_ok sample_merged = Inr sample_merged"
  by (simp add: sortByName_def array_sort_def sample_merged_def name_or_empty_def env_ok_def
      game_alpha_def game_alpha_classic_def game_beta_def)

lemma sample_written:
  "json_stringify env_ok
     [\<lparr>catalogKey = ''ALL'', count = 3, games = Some [game_alpha, game_alpha_classic, game_beta]\<rparr>]
     = ''ALL|3|10001:Alpha|10001:Alpha Classic|10002:Beta|''"
  by (simp add: env_ok_def sample_stringify_def sample_id_def decimal.simps games_or_empty_def
      name_or_empty_def
      game_alpha_def game_alpha_classic_def game_beta_def)

theorem refreshOnce_full_success_witness:
  "\<not> isRefreshing idle_state
   \<and> listeners idle_state = [invalidate_cache]
   \<and> all_view (cache idle_state) \<noteq> None
   \<and> files (snd (refreshOnce env_ok idle_state)) (filePath ''all.txt'')
       = Some \<lparr>content = ''ALL|3|10001:Alpha|10001:Alpha Classic|10002:Beta|'', mtimeMs = 1700000000000\<rparr>
   \<and> cache (snd (refreshOnce env_ok idle_state)) = cold_cache"
proof -
  have idle: "\<not> isRefreshing idle_state" by (simp add: idle_state_simps)
  have routes: "listeners idle_state = [invalidate_cache]" by (simp add: idle_state_simps)
  have warm: "all_view (cache idle_state) \<noteq> None"
    by (simp add: idle_state_simps warm_cache_def)
  from refreshOnce_full_success [OF idle env_ok_fetch_snapshots routes] obtain merged
    where s: "sortByName env_ok
                (concat (map (\<lambda>n. flatten_snapshot (sample_snapshots n)) (map fst ENDPOINTS)))
              = Inr merged"
      and fs: "files (snd (refreshOnce env_ok idle_state)) (filePath ''all.txt'')
             = Some \<lparr>content = json_stringify env_ok (allPayload merged), mtimeMs = nowMs env_ok\<rparr>"
      and ca: "cache (snd (refreshOnce env_ok idle_state))
             = \<lparr>included = None, classics = None, monthly = None, ubisoft = None, all_view = None\<rparr>"
    by blast
  from s have merged: "merged = sample_merged"
    unfolding sample_flattened sample_sorted by simp
  have payload: "allPayload sample_merged
      = [\<lparr>catalogKey = ''ALL'', count = 3,
           games = Some [game_alpha, game_alpha_classic, game_beta]\<rparr>]"
    by (simp add: allPayload_def sample_merged_def)
  have now: "nowMs env_ok = 1700000000000" by (simp add: env_ok_def)
  from ca have c: "cache (snd (refreshOnce env_ok idle_state)) = cold_cache"
    by (simp add: cold_cache_def)
  from idle routes warm fs [unfolded merged payload sample_written now] c
  show ?thesis by (intro conjI)
qed

section \<open>Staleness\<close>

text \<open>
  \<open>needsRefresh\<close> answers yes exactly when one of the four snapshot files is
  absent or was last written more than 172800000 milliseconds (two days) ago.
\<close>

theorem needsRefresh_threshold:
  "needsRefresh e st
     \<longleftrightarrow> list_ex (\<lambda>n. case files st (filePath n) of
                          None \<Rightarrow> True
                        | Some f \<Rightarrow> nowMs e - mtimeMs f > 172800000)
                 (map fst ENDPOINTS)"
proof -
  have "needsRefresh_loop now disk ns
          \<longleftrightarrow> list_ex (\<lambda>n. case disk (filePath n) of
                               None \<Rightarrow> True
                             | Some f \<Rightarrow> now - mtimeMs f > 172800000) ns" for now disk ns
    by (induction ns) (auto simp: statOrNull_def THREE_DAYS_MS_def split: option.splits)
  then show ?thesis by (simp add: needsRefresh_def)
qed

lemma THREE_DAYS_MS_value: "THREE_DAYS_MS = 172800000"
  by (simp add: THREE_DAYS_MS_def)

text \<open>
  Claim C4. With all four snapshots written two and a half days ago, which is less than
  three days, \<open>needsRefresh\<close> already answers yes: the constant \<open>THREE_DAYS_MS\<close> holds two
  days. At exactly two days it still answers no.
\<close>

theorem needsRefresh_stale_after_two_days:
  "needsRefresh env_ok (aged_state 216000000) = True
   \<and> (216000000 :: int) < 3 * 24 * 60 * 60 * 1000
   \<and> needsRefresh env_ok (aged_state 172800000) = False"
  by (simp add: needsRefresh_def aged_state_def aged_files_def ENDPOINTS_def statOrNull_def
      filePath_def FULL_DIR_def env_ok_def THREE_DAYS_MS_value)

section \<open>Sorting in the refresher\<close>

lemma insert_later_set:
  "insert_later (\<lambda>a b. Inr (c a b)) x placed = Inr zs \<Longrightarrow> set zs = insert x (set placed)"
proof -
  assume a: "insert_later (\<lambda>a b. Inr (c a b)) x placed = Inr zs"
  from insert_later_total [of c x placed] a have "mset zs = add_mset x (mset placed)" by simp
  then have "set_mset (mset zs) = set_mset (add_mset x (mset placed))" by simp
  then show ?thesis by simp
qed

text \<open>
  \<open>placed\<close> is the sorted part read backwards, so it is ordered when no element is less
  than a later one of the list.
\<close>

lemma insert_later_sorted:
  assumes sign: "\<forall>a b. c a b < 0 \<longleftrightarrow> 0 < c b a"
    and trans: "\<forall>a b d. c a b \<le> 0 \<and> c b d \<le> 0 \<longrightarrow> c a d \<le> 0"
  shows "sorted_wrt (\<lambda>a b. c b a \<le> 0) placed \<Longrightarrow>
         insert_later (\<lambda>a b. Inr (c a b)) x placed = Inr zs \<Longrightarrow>
         sorted_wrt (\<lambda>a b. c b a \<le> 0) zs"
proof (induction placed arbitrary: zs)
  case Nil
  then show ?case by auto
next
  case (Cons y placed)
  show ?case
  proof (cases "c x y < 0")
    case True
    from insert_later_total [of c x placed] obtain ws
      where ws: "insert_later (\<lambda>a b. Inr (c a b)) x placed = Inr ws" by blast
    with True Cons.prems(2) have zs: "zs = y # ws" by simp
    from Cons.prems(1) have "sorted_wrt (\<lambda>a b. c b a \<le> 0) placed" by simp
    from Cons.IH [OF this ws] have sw: "sorted_wrt (\<lambda>a b. c b a \<le> 0) ws" .
    from True have "c x y \<le> 0" by simp
    moreover from Cons.prems(1) have "\<forall>z\<in>set placed. c z y \<le> 0" by simp
    ultimately have "\<forall>z\<in>set ws. c z y \<le> 0"
      by (simp add: insert_later_set [OF ws])
    with sw show ?thesis by (simp add: zs)
  next
    case False
    with Cons.prems(2) have zs: "zs = x # y # placed" by simp
    from False sign have yx: "c y x \<le> 0" by (metis linorder_not_less)
    have "c z x \<le> 0" if "z \<in> set placed" for z
    proof -
      from Cons.prems(1) that have "c z y \<le> 0" by simp
      with yx trans show ?thesis by blast
    qed
    with yx Cons.prems(1) show ?thesis by (simp add: zs)
  qed
qed

lemma insert_later_stable:
  assumes same: "\<forall>a b. key a = key b \<longrightarrow> \<not> c a b < 0"
  shows "insert_later (\<lambda>a b. Inr (c a b)) x placed = Inr zs \<Longrightarrow>
         filter (\<lambda>g. key g = k) zs = filter (\<lambda>g. key g = k) (x # placed)"
proof (induction placed arbitrary: zs)
  case Nil
  then show ?case by auto
next
  case (Cons y placed)
  show ?case
  proof (cases "c x y < 0")
    case False
    with Cons.prems show ?thesis by simp
  next
    case True
    from insert_later_total [of c x placed] obtain ws
      where ws: "insert_later (\<lambda>a b. Inr (c a b)) x placed = Inr ws" by blast
    with True Cons.prems have zs: "zs = y # ws" by simp
    from True same have ne: "key x \<noteq> key y" by blast
    from Cons.IH [OF ws] ne show ?thesis by (auto simp: zs)
  qed
qed

lemma sort_loop_sorted_stable:
  assumes sign: "\<forall>a b. c a b < 0 \<longleftrightarrow> 0 < c b a"
    and trans: "\<forall>a b d. c a b \<le> 0 \<and> c b d \<le> 0 \<longrightarrow> c a d \<le> 0"
    and same: "\<forall>a b. key a = key b \<longrightarrow> \<not> c a b < 0"
  shows "sorted_wrt (\<lambda>a b. c b a \<le> 0) placed \<Longrightarrow>
         sort_loop (\<lambda>a b. Inr (c a b)) placed xs = Inr ys \<Longrightarrow>
         sorted_wrt (\<lambda>a b. c a b \<le> 0) ys
         \<and> filter (\<lambda>g. key g = k) ys
             = filter (\<lambda>g. key g = k) (rev placed) @ filter (\<lambda>g. key g = k) xs"
proof (induction xs arbitrary: placed ys)
  case Nil
  then have ys: "ys = rev placed" by simp
  from Nil.prems(1) have "sorted_wrt (\<lambda>a b. c a b \<le> 0) (rev placed)"
    by (simp add: sorted_wrt_rev)
  then show ?case by (simp add: ys)
next
  case (Cons x xs)
  from insert_later_total [of c x placed] obtain zs
    where zs: "insert_later (\<lambda>a b. Inr (c a b)) x placed = Inr zs" by blast
  with Cons.prems(2) have loop: "sort_loop (\<lambda>a b. Inr (c a b)) zs xs = Inr ys" by simp
  from insert_later_sorted [OF sign trans Cons.prems(1) zs]
  have sz: "sorted_wrt (\<lambda>a b. c b a \<le> 0) zs" .
  from insert_later_stable [OF same zs, of k]
  have fz: "filter (\<lambda>g. key g = k) zs = filter (\<lambda>g. key g = k) (x # placed)" .
  then have "filter (\<lambda>g. key g = k) (rev zs) = filter (\<lambda>g. key g = k) (rev (x # placed))"
    by (simp only: rev_filter [symmetric])
  with Cons.IH [OF sz loop] show ?case by simp
qed

lemma array_sort_sorted_stable:
  assumes sign: "\<forall>a b. c a b < 0 \<longleftrightarrow> 0 < c b a"
    and trans: "\<forall>a b d. c a b \<le> 0 \<and> c b d \<le> 0 \<longrightarrow> c a d \<le> 0"
    and same: "\<forall>a b. key a = key b \<longrightarrow> \<not> c a b < 0"
  shows "array_sort (\<lambda>a b. Inr (c a b)) xs = Inr ys \<Longrightarrow>
         sorted_wrt (\<lambda>a b. c a b \<le> 0) ys
         \<and> filter (\<lambda>g. key g = k) ys = filter (\<lambda>g. key g = k) xs"
  using sort_loop_sorted_stable [OF sign trans same, of "[]" xs ys k]
  by (simp add: array_sort_def)

text \<open>
  Under a collation that is a total preorder, \<open>sortByName\<close> of the refresher
  never fails and returns a permutation of its input that is ordered by name, records
  without a name counting as the empty string, and that keeps records of equal name in
  their original order.
\<close>

theorem sortByName_stable_sort:
  assumes sign: "\<forall>a b. localeCompare e a b < 0 \<longleftrightarrow> 0 < localeCompare e b a"
    and trans: "\<forall>a b d. localeCompare e a b \<le> 0 \<and> localeCompare e b d \<le> 0
                  \<longrightarrow> localeCompare e a d \<le> 0"
  shows "\<exists>ys. sortByName e gs = Inr ys
          \<and> mset ys = mset gs
          \<and> sorted_wrt (\<lambda>a b. localeCompare e (name_or_empty a) (name_or_empty b) \<le> 0) ys
          \<and> (\<forall>k. filter (\<lambda>g. name_or_empty g = k) ys = filter (\<lambda>g. name_or_empty g = k) gs)"
proof -
  let ?c = "\<lambda>a b. localeCompare e (name_or_empty a) (name_or_empty b)"
  from sortByName_total [of e gs] obtain ys
    where ys: "sortByName e gs = Inr ys" and m: "mset ys = mset gs" by blast
  have t1: "\<forall>a b. ?c a b < 0 \<longleftrightarrow> 0 < ?c b a" using sign by blast
  have t2: "\<forall>a b d. ?c a b \<le> 0 \<and> ?c b d \<le> 0 \<longrightarrow> ?c a d \<le> 0" using trans by blast
  have t3: "\<forall>a b. name_or_empty a = name_or_empty b \<longrightarrow> \<not> ?c a b < 0"
  proof (intro allI impI)
    fix a b :: raw_game
    assume eq: "name_or_empty a = name_or_empty b"
    from sign have "\<not> localeCompare e (name_or_empty a) (name_or_empty a) < 0"
      by (metis less_asym)
    with eq show "\<not> ?c a b < 0" by simp
  qed
  from ys have "array_sort (\<lambda>a b. Inr (?c a b)) gs = Inr ys" by (simp add: sortByName_def)
  from array_sort_sorted_stable [of ?c name_or_empty, OF t1 t2 t3 this]
  have "sorted_wrt (\<lambda>a b. ?c a b \<le> 0) ys \<and>
        filter (\<lambda>g. name_or_empty g = k) ys = filter (\<lambda>g. name_or_empty g = k) gs" for k .
  with ys m show ?thesis by blast
qed

lemma code_point_compare_Cons:
  "code_point_compare (a # as) (b # bs) \<le> 0
     \<longleftrightarrow> (of_char a :: nat) < of_char b
         \<or> ((of_char a :: nat) = of_char b \<and> code_point_compare as bs \<le> 0)"
proof (cases "(of_char a :: nat) < of_char b")
  case True
  then show ?thesis by simp
next
  case nlt: False
  show ?thesis
  proof (cases "(of_char b :: nat) < of_char a")
    case True
    then have "a \<noteq> b" by auto
    with nlt True show ?thesis by simp
  next
    case False
    with nlt have "(of_char a :: nat) = of_char b" by simp
    then show ?thesis by simp
  qed
qed

lemma code_point_compare_sign:
  "code_point_compare a b < 0 \<longleftrightarrow> 0 < code_point_compare b a"
proof (induction a b rule: code_point_compare.induct)
  case (4 a as b bs)
  show ?case
  proof (cases "(of_char a :: nat) < of_char b")
    case True
    then show ?thesis by simp
  next
    case nlt: False
    show ?thesis
    proof (cases "(of_char b :: nat) < of_char a")
      case True
      with nlt show ?thesis by simp
    next
      case False
      from "4.IH" [OF nlt False] nlt False show ?thesis by simp
    qed
  qed
qed simp_all

lemma code_point_compare_trans:
  "code_point_compare a b \<le> 0 \<Longrightarrow> code_point_compare b d \<le> 0 \<Longrightarrow> code_point_compare a d \<le> 0"
proof (induction a arbitrary: b d)
  case Nil
  then show ?case by (cases d) simp_all
next
  case (Cons x xs)
  from Cons.prems(1) obtain y ys where b: "b = y # ys" by (cases b) simp_all
  from Cons.prems(2) b obtain z zs where d: "d = z # zs" by (cases d) simp_all
  from Cons.prems(1) have xy: "(of_char x :: nat) < of_char y
      \<or> ((of_char x :: nat) = of_char y \<and> code_point_compare xs ys \<le> 0)"
    unfolding b code_point_compare_Cons .
  from Cons.prems(2) have yz: "(of_char y :: nat) < of_char z
      \<or> ((of_char y :: nat) = of_char z \<and> code_point_compare ys zs \<le> 0)"
    unfolding b d code_point_compare_Cons .
  have "(of_char x :: nat) < of_char z
      \<or> ((of_char x :: nat) = of_char z \<and> code_point_compare xs zs \<le> 0)"
  proof (cases "(of_char x :: nat) < of_char z")
    case True
    then show ?thesis by simp
  next
    case False
    with xy yz have e1: "(of_char x :: nat) = of_char y" and e2: "(of_char y :: nat) = of_char z"
      by linarith+
    with xy yz have "code_point_compare xs ys \<le> 0" "code_point_compare ys zs \<le> 0" by simp_all
    from Cons.IH [OF this] e1 e2 show ?thesis by simp
  qed
  then show ?case unfolding d code_point_compare_Cons .
qed

theorem sortByName_stable_sort_witness:
  "sortByName env_ok [game_beta, nameless_one, game_alpha, nameless_two]
     = Inr [nameless_one, nameless_two, game_alpha, game_beta]
   \<and> sorted_wrt (\<lambda>a b. code_point_compare (name_or_empty a) (name_or_empty b) \<le> 0)
        [nameless_one, nameless_two, game_alpha, game_beta]
   \<and> filter (\<lambda>g. name_or_empty g = []) [nameless_one, nameless_two, game_alpha, game_beta]
       = [nameless_one, nameless_two]"
proof -
  have lc: "localeCompare env_ok = code_point_compare" by (simp add: env_ok_def)
  have sign: "\<forall>a b. localeCompare env_ok a b < 0 \<longleftrightarrow> 0 < localeCompare env_ok b a"
    unfolding lc using code_point_compare_sign by blast
  have trans: "\<forall>a b d. localeCompare env_ok a b \<le> 0 \<and> localeCompare env_ok b d \<le> 0
                  \<longrightarrow> localeCompare env_ok a d \<le> 0"
    unfolding lc using code_point_compare_trans by blast
  have run: "sortByName env_ok [game_beta, nameless_one, game_alpha, nameless_two]
     = Inr [nameless_one, nameless_two, game_alpha, game_beta]"
    by (simp add: sortByName_def array_sort_def name_or_empty_def env_ok_def
        game_alpha_def game_beta_def nameless_one_def nameless_two_def)
  from sortByName_stable_sort [OF sign trans, of "[game_beta, nameless_one, game_alpha, nameless_two]"]
  obtain ys where ys: "sortByName env_ok [game_beta, nameless_one, game_alpha, nameless_two] = Inr ys"
    and sorted: "sorted_wrt (\<lambda>a b. localeCompare env_ok (name_or_empty a) (name_or_empty b) \<le> 0) ys"
    and stable: "\<forall>k. filter (\<lambda>g. name_or_empty g = k) ys
         = filter (\<lambda>g. name_or_empty g = k) [game_beta, nameless_one, game_alpha, nameless_two]"
    by blast
  from ys run have eq: "ys = [nameless_one, nameless_two, game_alpha, game_beta]" by simp
  from stable [rule_format, of "[]"]
  have "filter (\<lambda>g. name_or_empty g = []) [nameless_one, nameless_two, game_alpha, game_beta]
       = [nameless_one, nameless_two]"
    unfolding eq
    by (simp add: name_or_empty_def game_alpha_def game_beta_def nameless_one_def nameless_two_def)
  with run sorted [unfolded eq lc] show ?thesis by (intro conjI)
qed

section \<open>Sorting and merging in the routes\<close>

text \<open>
  Claim C8. On two records without a name the \<open>sortByName\<close> of the routes throws a
  TypeError, under any collation and whichever of the two the engine passes first, and
  where only the second argument has no name it is compared as the string \<open>undefined\<close>;
  the \<open>sortByName\<close> of the refresher sorts the same two records as empty strings.
\<close>

theorem routes_sortByName_throws_on_absent_name:
  "routes_sortByName e [nameless_one, nameless_two]
     = Inl (TypeError ''Cannot read properties of undefined (reading localeCompare)'')
   \<and> routes_sortByName e [nameless_two, nameless_one]
     = Inl (TypeError ''Cannot read properties of undefined (reading localeCompare)'')
   \<and> routes_compare e game_alpha nameless_one = Inr (localeCompare e ''Alpha'' ''undefined'')
   \<and> sortByName env_ok [nameless_one, nameless_two] = Inr [nameless_one, nameless_two]"
  by (simp add: routes_sortByName_def array_sort_def routes_compare_def sortByName_def name_or_empty_def
      nameless_one_def nameless_two_def game_alpha_def env_ok_def)


lemma routes_sortByName_mixed:
  "routes_sortByName env_ok [nameless_one, game_alpha] = Inr [game_alpha, nameless_one]
   \<and> routes_sortByName env_ok [game_alpha, nameless_one]
     = Inl (TypeError ''Cannot read properties of undefined (reading localeCompare)'')
   \<and> routes_sortByName env_ok [nameless_one, game_beta, game_alpha]
     = Inr [game_alpha, game_beta, nameless_one]"
  by (simp add: routes_sortByName_def array_sort_def routes_compare_def
      nameless_one_def game_alpha_def game_beta_def env_ok_def)

lemma insert_later_routes_named:
  "name x \<noteq> None \<Longrightarrow> \<exists>zs. insert_later (routes_compare e) x placed = Inr zs \<and> zs \<noteq> []"
  by (induction placed) (auto simp add: routes_compare_def)

lemma insert_later_routes_nameless:
  "name x = None \<Longrightarrow> insert_later (routes_compare e) x (y # placed)
     = Inl (TypeError ''Cannot read properties of undefined (reading localeCompare)'')"
  by (simp add: routes_compare_def)

lemma sort_loop_routes_throws_iff:
  "placed \<noteq> [] \<Longrightarrow>
     (sort_loop (routes_compare e) placed xs
        = Inl (TypeError ''Cannot read properties of undefined (reading localeCompare)''))
     = (\<exists>g\<in>set xs. name g = None)"
proof (induction xs arbitrary: placed)
  case Nil
  then show ?case by simp
next
  case (Cons x xs)
  from Cons.prems obtain y p where placed: "placed = y # p" by (cases placed) auto
  show ?case
  proof (cases "name x")
    case None
    then show ?thesis unfolding placed by (simp add: routes_compare_def)
  next
    case (Some n)
    then have "name x \<noteq> None" by simp
    from insert_later_routes_named [OF this, of e placed] obtain zs
      where zs: "insert_later (routes_compare e) x placed = Inr zs" "zs \<noteq> []" by blast
    from Cons.IH [OF zs(2)] zs(1) Some show ?thesis by simp
  qed
qed

lemma sort_loop_routes_total:
  "sort_loop (routes_compare e) placed xs
     = Inl (TypeError ''Cannot read properties of undefined (reading localeCompare)'')
   \<or> (\<exists>ys. sort_loop (routes_compare e) placed xs = Inr ys)"
proof (induction xs arbitrary: placed)
  case Nil
  then show ?case by simp
next
  case (Cons x xs)
  show ?case
  proof (cases "name x")
    case None
    show ?thesis
    proof (cases placed)
      case Nil
      with Cons.IH [of "[x]"] show ?thesis by simp
    next
      case (Cons y p)
      with None show ?thesis by (simp add: routes_compare_def)
    qed
  next
    case (Some n)
    then have "name x \<noteq> None" by simp
    from insert_later_routes_named [OF this, of e placed] obtain zs
      where zs: "insert_later (routes_compare e) x placed = Inr zs" by blast
    with Cons.IH [of zs] show ?thesis by simp
  qed
qed

text \<open>
  The \<open>sortByName\<close> of the routes throws exactly when a record other than the first of
  the array has no name: every such record is passed to the comparator as its first
  argument, the first record of the array never is.
\<close>

lemma routes_sortByName_throws_iff:
  "(routes_sortByName e (x # xs)
      = Inl (TypeError ''Cannot read properties of undefined (reading localeCompare)''))
   = (\<exists>g\<in>set xs. name g = None)"
  by (simp add: routes_sortByName_def array_sort_def sort_loop_routes_throws_iff)

lemma routes_sortByName_returns_iff:
  "(\<exists>ys. routes_sortByName e (x # xs) = Inr ys) = (\<forall>g\<in>set xs. name g \<noteq> None)"
proof -
  from sort_loop_routes_total [of e "[]" "x # xs"]
  have "routes_sortByName e (x # xs)
          = Inl (TypeError ''Cannot read properties of undefined (reading localeCompare)'')
        \<or> (\<exists>ys. routes_sortByName e (x # xs) = Inr ys)"
    by (simp add: routes_sortByName_def array_sort_def)
  with routes_sortByName_throws_iff [of e x xs] show ?thesis by auto
qed

subsection \<open>De-duplication by conceptId\<close>

lemma map_has_iff: "map_has m k \<longleftrightarrow> k \<in> set (map fst m)"
  by (auto simp: map_has_def list_ex_iff)

lemma spec_dedupe_from_cong:
  "set s = set s' \<Longrightarrow> spec_dedupe_from s gs = spec_dedupe_from s' gs"
proof (induction gs arbitrary: s s')
  case Nil
  then show ?case by simp
next
  case (Cons g gs)
  from Cons.prems have "set (conceptId g # s) = set (conceptId g # s')" by simp
  from Cons.IH [OF this] Cons.IH [OF Cons.prems] Cons.prems show ?case by simp
qed

lemma dedupe_loop_spec:
  "map_values (dedupe_loop m gs) = map snd m @ spec_dedupe_from (map fst m) gs"
proof (induction gs arbitrary: m)
  case Nil
  then show ?case by (simp add: map_values_def)
next
  case (Cons g gs)
  show ?case
  proof (cases "map_has m (conceptId g)")
    case True
    with Cons.IH [of m] show ?thesis by (simp add: map_has_iff)
  next
    case False
    have "spec_dedupe_from (map fst (m @ [(conceptId g, g)])) gs
            = spec_dedupe_from (conceptId g # map fst m) gs"
      by (rule spec_dedupe_from_cong) auto
    with False Cons.IH [of "m @ [(conceptId g, g)]"] show ?thesis
      by (simp add: map_has_iff map_set_def)
  qed
qed

lemma merge_dedupe_spec:
  "merge_dedupe incl clas mon ubi = spec_dedupeByConceptId (incl @ clas @ mon @ ubi)"
  using dedupe_loop_spec [of "[]" "incl @ clas @ mon @ ubi"]
  by (simp add: merge_dedupe_def spec_dedupeByConceptId_def)

lemma spec_dedupe_from_ids:
  "set (map conceptId (spec_dedupe_from s xs)) = set (map conceptId xs) - set s"
proof (induction xs arbitrary: s)
  case Nil
  then show ?case by simp
next
  case (Cons x xs)
  from Cons.IH [of s] Cons.IH [of "conceptId x # s"] show ?case by auto
qed

lemma spec_dedupe_from_distinct: "distinct (map conceptId (spec_dedupe_from s xs))"
proof (induction xs arbitrary: s)
  case Nil
  then show ?case by simp
next
  case (Cons x xs)
  from spec_dedupe_from_ids [of "conceptId x # s" xs]
  have "conceptId x \<notin> set (map conceptId (spec_dedupe_from (conceptId x # s) xs))" by simp
  with Cons.IH [of s] Cons.IH [of "conceptId x # s"] show ?case by simp
qed

lemma spec_dedupe_from_first:
  "g \<in> set (spec_dedupe_from s xs) \<Longrightarrow> find (\<lambda>h. conceptId h = conceptId g) xs = Some g"
proof (induction xs arbitrary: s)
  case Nil
  then show ?case by simp
next
  case (Cons x xs)
  show ?case
  proof (cases "conceptId x \<in> set s")
    case True
    with Cons.prems have mem: "g \<in> set (spec_dedupe_from s xs)" by simp
    then have "conceptId g \<in> set (map conceptId (spec_dedupe_from s xs))" by simp
    with spec_dedupe_from_ids [of s xs] True have "conceptId x \<noteq> conceptId g" by auto
    with Cons.IH [OF mem] show ?thesis by simp
  next
    case False
    show ?thesis
    proof (cases "g = x")
      case True
      then show ?thesis by simp
    next
      case ne: False
      with Cons.prems False have mem: "g \<in> set (spec_dedupe_from (conceptId x # s) xs)" by simp
      then have "conceptId g \<in> set (map conceptId (spec_dedupe_from (conceptId x # s) xs))" by simp
      with spec_dedupe_from_ids [of "conceptId x # s" xs] have "conceptId x \<noteq> conceptId g" by auto
      with Cons.IH [OF mem] show ?thesis by simp
    qed
  qed
qed

lemma filter_distinct_key:
  "distinct (map f ys) \<Longrightarrow> y \<in> set ys \<Longrightarrow> filter (\<lambda>z. f z = f y) ys = [y]"
proof (induction ys)
  case Nil
  then show ?case by simp
next
  case (Cons a ys)
  show ?case
  proof (cases "a = y")
    case True
    with Cons.prems have "f y \<notin> f ` set ys" by simp
    then have "\<forall>z\<in>set ys. f z \<noteq> f y" by (metis imageI)
    then have "filter (\<lambda>z. f z = f y) ys = []"
      by (simp add: filter_empty_conv)
    with True show ?thesis by simp
  next
    case False
    with Cons.prems have y: "y \<in> set ys" by simp
    with Cons.prems have "f a \<noteq> f y" by force
    with Cons.IH y Cons.prems show ?thesis by simp
  qed
qed

text \<open>
  Claim C9. In the merge of \<open>/all-games\<close> the retained records have pairwise different
  conceptIds, every conceptId of the four sources is retained, and for every record of the
  sources the one entry retained for its conceptId is the first record with that id in the
  order included, classics, monthly, ubisoft: the record itself, unchanged.
\<close>

theorem merge_dedupe_first_occurrence:
  "distinct (map conceptId (merge_dedupe incl clas mon ubi))
   \<and> set (map conceptId (merge_dedupe incl clas mon ubi))
       = set (map conceptId (incl @ clas @ mon @ ubi))
   \<and> (\<forall>g\<in>set (incl @ clas @ mon @ ubi).
        \<exists>first. find (\<lambda>h. conceptId h = conceptId g) (incl @ clas @ mon @ ubi) = Some first
              \<and> filter (\<lambda>y. conceptId y = conceptId g) (merge_dedupe incl clas mon ubi) = [first])"
proof -
  let ?xs = "incl @ clas @ mon @ ubi"
  let ?ys = "merge_dedupe incl clas mon ubi"
  have ys: "?ys = spec_dedupe_from [] ?xs"
    by (simp add: merge_dedupe_spec spec_dedupeByConceptId_def)
  have d: "distinct (map conceptId ?ys)"
    unfolding ys by (rule spec_dedupe_from_distinct)
  have ids: "set (map conceptId ?ys) = set (map conceptId ?xs)"
    unfolding ys using spec_dedupe_from_ids [of "[]" ?xs] by simp
  have "\<exists>first. find (\<lambda>h. conceptId h = conceptId g) ?xs = Some first
              \<and> filter (\<lambda>y. conceptId y = conceptId g) ?ys = [first]"
    if "g \<in> set ?xs" for g
  proof -
    from that have "conceptId g \<in> set (map conceptId ?xs)" by (simp only: set_map) (rule imageI)
    with ids have "conceptId g \<in> set (map conceptId ?ys)" by simp
    then obtain y where y: "y \<in> set ?ys" "conceptId y = conceptId g" by auto
    from y(1) have "find (\<lambda>h. conceptId h = conceptId y) ?xs = Some y"
      unfolding ys by (rule spec_dedupe_from_first)
    moreover from filter_distinct_key [OF d y(1)]
    have "filter (\<lambda>z. conceptId z = conceptId y) ?ys = [y]" .
    ultimately show ?thesis by (simp add: y(2))
  qed
  with d ids show ?thesis by blast
qed

theorem merge_dedupe_first_occurrence_witness:
  "game_alpha_classic \<in> set ([game_alpha] @ [game_alpha_classic, game_beta] @ [] @ [])
   \<and> conceptId game_alpha_classic = conceptId game_alpha
   \<and> find (\<lambda>h. conceptId h = conceptId game_alpha_classic)
        ([game_alpha] @ [game_alpha_classic, game_beta] @ [] @ []) = Some game_alpha
   \<and> filter (\<lambda>y. conceptId y = conceptId game_alpha_classic)
        (merge_dedupe [game_alpha] [game_alpha_classic, game_beta] [] []) = [game_alpha]
   \<and> merge_dedupe [game_alpha] [game_alpha_classic, game_beta] [] [] = [game_alpha, game_beta]"
proof -
  have mem: "game_alpha_classic \<in> set ([game_alpha] @ [game_alpha_classic, game_beta] @ [] @ [])"
    by simp
  have same: "conceptId game_alpha_classic = conceptId game_alpha"
    by (simp add: game_alpha_def game_alpha_classic_def)
  have first: "find (\<lambda>h. conceptId h = conceptId game_alpha_classic)
      ([game_alpha] @ [game_alpha_classic, game_beta] @ [] @ []) = Some game_alpha"
    by (simp add: same)
  note main = merge_dedupe_first_occurrence [of "[game_alpha]" "[game_alpha_classic, game_beta]" "[]" "[]"]
  from main [THEN conjunct2, THEN conjunct2, THEN bspec, OF mem] first
  have kept: "filter (\<lambda>y. conceptId y = conceptId game_alpha_classic)
        (merge_dedupe [game_alpha] [game_alpha_classic, game_beta] [] []) = [game_alpha]"
    by simp
  have whole: "merge_dedupe [game_alpha] [game_alpha_classic, game_beta] [] [] = [game_alpha, game_beta]"
    by (simp add: merge_dedupe_def map_values_def map_has_def map_set_def
        game_alpha_def game_alpha_classic_def game_beta_def)
  from mem same first kept whole show ?thesis by (intro conjI)
qed

subsection \<open>The merged file against the all-games view\<close>

lemma insert_later_mset:
  "insert_later cmp x placed = Inr zs \<Longrightarrow> mset zs = add_mset x (mset placed)"
proof (induction placed arbitrary: zs)
  case Nil
  then show ?case by auto
next
  case (Cons y placed)
  then show ?case
    by (auto split: sum.splits if_splits)
qed

lemma sort_loop_mset:
  "sort_loop cmp placed xs = Inr ys \<Longrightarrow> mset ys = mset placed + mset xs"
proof (induction xs arbitrary: placed ys)
  case Nil
  then show ?case by auto
next
  case (Cons x xs)
  then show ?case
    by (auto split: sum.splits dest!: insert_later_mset)
qed

lemma array_sort_mset: "array_sort cmp xs = Inr ys \<Longrightarrow> mset ys = mset xs"
  using sort_loop_mset [of cmp "[]" xs ys] by (simp add: array_sort_def)

lemma pub_conceptId_toPublicGame: "pub_conceptId (toPublicGame g) = conceptId g"
  by (simp add: toPublicGame_def)

lemma merge_dedupe_distinct: "distinct (map conceptId (merge_dedupe incl clas mon ubi))"
  by (simp add: merge_dedupe_spec spec_dedupeByConceptId_def spec_dedupe_from_distinct)

lemma routes_sortByName_distinct:
  assumes "routes_sortByName e gs = Inr sorted_games" and "distinct (map conceptId gs)"
  shows "distinct (map conceptId sorted_games)"
proof -
  from assms(1) have "mset sorted_games = mset gs"
    unfolding routes_sortByName_def by (rule array_sort_mset)
  then have "mset (map conceptId sorted_games) = mset (map conceptId gs)" by simp
  with assms(2) show ?thesis by (metis mset_eq_imp_distinct_iff)
qed

lemma build_all_games_distinct:
  assumes "build_all_games e disk = Inr c"
  shows "distinct (map pub_conceptId (concat (map pub_games c)))"
proof -
  from assms obtain incl clas mon ubi sorted_games
    where s: "routes_sortByName e (merge_dedupe incl clas mon ubi) = Inr sorted_games"
      and c: "c = [\<lparr>catalogueName = ''All'', description = ''Every game from every catalogue'',
                    pub_count = length (map toPublicGame sorted_games),
                    pub_games = map toPublicGame sorted_games\<rparr>]"
    by (auto simp: build_all_games_def split: sum.splits)
  from routes_sortByName_distinct [OF s merge_dedupe_distinct]
  have "distinct (map conceptId sorted_games)" .
  then show ?thesis
    by (simp add: c comp_def pub_conceptId_toPublicGame)
qed

lemma all_games_distinct:
  assumes "all_view (cache st) = None" and "all_games e st = (JsonCatalogue c, st')"
  shows "distinct (map pub_conceptId (concat (map pub_games c)))"
proof -
  from assms have "build_all_games e (files st) = Inr c"
    by (auto simp: all_games_def split: sum.splits)
  then show ?thesis by (rule build_all_games_distinct)
qed

lemma two_members_le_sum_list:
  fixes f :: "'a \<Rightarrow> nat"
  assumes "a \<in> set ns" and "b \<in> set ns" and "a \<noteq> b"
  shows "f a + f b \<le> sum_list (map f ns)"
  using assms
proof (induction ns)
  case Nil
  then show ?case by simp
next
  case (Cons n ns)
  have le: "f x \<le> sum_list (map f ns)" if "x \<in> set ns" for x
    using that by (simp add: member_le_sum_list)
  show ?case
  proof (cases "n = a")
    case True
    with Cons.prems have "b \<in> set ns" by auto
    from le [OF this] True show ?thesis by simp
  next
    case na: False
    show ?thesis
    proof (cases "n = b")
      case True
      with Cons.prems have "a \<in> set ns" by auto
      from le [OF this] True show ?thesis by simp
    next
      case False
      with na Cons.prems have "a \<in> set ns" "b \<in> set ns" by auto
      from Cons.IH [OF this Cons.prems(3)] show ?thesis by simp
    qed
  qed
qed

lemma length_filter_concat:
  "length (filter P (concat (map F ns))) = sum_list (map (\<lambda>n. length (filter P (F n))) ns)"
  by (induction ns) simp_all

lemma length_filter_pos: "x \<in> set xs \<Longrightarrow> P x \<Longrightarrow> 1 \<le> length (filter P xs)"
  by (induction xs) auto

lemma length_filter_mset: "mset xs = mset ys \<Longrightarrow> length (filter P xs) = length (filter P ys)"
proof -
  assume "mset xs = mset ys"
  then have "mset (filter P xs) = mset (filter P ys)" by simp
  then show ?thesis by (rule mset_eq_length)
qed

lemma duplicates_survive_merge:
  assumes m: "mset merged = mset (concat (map F ns))"
    and n: "n1 \<in> set ns" "n2 \<in> set ns" "n1 \<noteq> n2"
    and g: "g1 \<in> set (F n1)" "g2 \<in> set (F n2)" "conceptId g1 = conceptId g2"
  shows "2 \<le> length (filter (\<lambda>g. conceptId g = conceptId g1) merged)"
proof -
  let ?P = "\<lambda>g. conceptId g = conceptId g1"
  let ?f = "\<lambda>n. length (filter ?P (F n))"
  have "1 \<le> ?f n1"
    by (rule length_filter_pos [OF g(1)]) (rule refl)
  moreover have "1 \<le> ?f n2"
    by (rule length_filter_pos [OF g(2)]) (rule g(3) [symmetric])
  moreover from two_members_le_sum_list [OF n, of ?f]
  have "?f n1 + ?f n2 \<le> sum_list (map ?f ns)" .
  moreover have "length (filter ?P merged) = sum_list (map ?f ns)"
    using length_filter_mset [OF m, of ?P] by (simp add: length_filter_concat)
  ultimately show ?thesis by linarith
qed

lemma source_names:
  "map fst ENDPOINTS
     = [''plus-games-list.txt'', ''ubisoft-classics-list.txt'', ''plus-classics-list.txt'',
        ''plus-monthly-games-list.txt'']"
  by (simp add: ENDPOINTS_def)

lemma games_or_empty_explicit:
  "games_or_empty = (\<lambda>grp. case games grp of None \<Rightarrow> [] | Some gs \<Rightarrow> gs)"
  by (rule ext) (simp add: games_or_empty_def)

lemma flatten_snapshot_explicit:
  "flatten_snapshot s
     = concat (map (\<lambda>grp. case games grp of None \<Rightarrow> [] | Some gs \<Rightarrow> gs)
                   (case s of None \<Rightarrow> [] | Some groups \<Rightarrow> groups))"
  by (simp add: flatten_snapshot_def games_or_empty_explicit)

lemma flatten_snapshot_member:
  "s = Some groups \<Longrightarrow> grp \<in> set groups \<Longrightarrow> games grp = Some gs \<Longrightarrow> g \<in> set gs \<Longrightarrow>
   g \<in> set (flatten_snapshot s)"
  by (force simp: flatten_snapshot_def games_or_empty_def)

lemma route_paths:
  "join_dirname ''./full_responses/plus-games-list.txt'' = filePath ''plus-games-list.txt''"
  "join_dirname ''./full_responses/plus-classics-list.txt'' = filePath ''plus-classics-list.txt''"
  "join_dirname ''./full_responses/plus-monthly-games-list.txt'' = filePath ''plus-monthly-games-list.txt''"
  "join_dirname ''./full_responses/ubisoft-classics-list.txt'' = filePath ''ubisoft-classics-list.txt''"
  "join_dirname ''./full_responses/all.txt'' = filePath ''all.txt''"
  by (simp_all add: join_dirname_def filePath_def FULL_DIR_def)

lemma loadGroupedGames_source:
  assumes "join_dirname rel = filePath n"
    and "disk (filePath n) = Some f" and "json_parse e (content f) = Inr s"
    and "loadGroupedGames e disk rel = Inr gs"
  shows "gs = flatten_snapshot s"
  using assms
  by (auto simp: loadGroupedGames_def readJsonFile_def readFile_def flatten_snapshot_def
      split: sum.splits option.splits)

lemma build_all_games_sources:
  assumes src: "\<forall>n\<in>set (map fst ENDPOINTS).
                  \<exists>f. disk (filePath n) = Some f \<and> json_parse e (content f) = Inr (snap n)"
    and built: "build_all_games e disk = Inr c"
  shows "\<exists>sorted_games.
           c = [\<lparr>catalogueName = ''All'', description = ''Every game from every catalogue'',
                 pub_count = length (map toPublicGame sorted_games),
                 pub_games = map toPublicGame sorted_games\<rparr>]
         \<and> mset sorted_games
             = mset (merge_dedupe (flatten_snapshot (snap ''plus-games-list.txt''))
                                  (flatten_snapshot (snap ''plus-classics-list.txt''))
                                  (flatten_snapshot (snap ''plus-monthly-games-list.txt''))
                                  (flatten_snapshot (snap ''ubisoft-classics-list.txt'')))"
proof -
  from built obtain incl clas mon ubi sorted_games
    where l1: "loadGroupedGames e disk ''./full_responses/plus-games-list.txt'' = Inr incl"
      and l2: "loadGroupedGames e disk ''./full_responses/plus-classics-list.txt'' = Inr clas"
      and l3: "loadGroupedGames e disk ''./full_responses/plus-monthly-games-list.txt'' = Inr mon"
      and l4: "loadGroupedGames e disk ''./full_responses/ubisoft-classics-list.txt'' = Inr ubi"
      and s: "routes_sortByName e (merge_dedupe incl clas mon ubi) = Inr sorted_games"
      and c: "c = [\<lparr>catalogueName = ''All'', description = ''Every game from every catalogue'',
                    pub_count = length (map toPublicGame sorted_games),
                    pub_games = map toPublicGame sorted_games\<rparr>]"
    by (auto simp: build_all_games_def split: sum.splits)
  have on_disk: "\<exists>f. disk (filePath n) = Some f \<and> json_parse e (content f) = Inr (snap n)"
    if "n \<in> set (map fst ENDPOINTS)" for n
    using src that by blast
  have names: "''plus-games-list.txt'' \<in> set (map fst ENDPOINTS)"
    "''plus-classics-list.txt'' \<in> set (map fst ENDPOINTS)"
    "''plus-monthly-games-list.txt'' \<in> set (map fst ENDPOINTS)"
    "''ubisoft-classics-list.txt'' \<in> set (map fst ENDPOINTS)"
    unfolding source_names by simp_all
  from on_disk [OF names(1)] l1 have i: "incl = flatten_snapshot (snap ''plus-games-list.txt'')"
    using loadGroupedGames_source [OF route_paths(1)] by blast
  from on_disk [OF names(2)] l2 have k: "clas = flatten_snapshot (snap ''plus-classics-list.txt'')"
    using loadGroupedGames_source [OF route_paths(2)] by blast
  from on_disk [OF names(3)] l3 have m: "mon = flatten_snapshot (snap ''plus-monthly-games-list.txt'')"
    using loadGroupedGames_source [OF route_paths(3)] by blast
  from on_disk [OF names(4)] l4 have u: "ubi = flatten_snapshot (snap ''ubisoft-classics-list.txt'')"
    using loadGroupedGames_source [OF route_paths(4)] by blast
  from s have "mset sorted_games = mset (merge_dedupe incl clas mon ubi)"
    unfolding routes_sortByName_def by (rule array_sort_mset)
  with c show ?thesis unfolding i k m u by blast
qed

lemma merge_dedupe_ids:
  "set (map conceptId (merge_dedupe incl clas mon ubi))
     = set (map conceptId (incl @ clas @ mon @ ubi))"
  using spec_dedupe_from_ids [of "[]" "incl @ clas @ mon @ ubi"]
  by (simp add: merge_dedupe_spec spec_dedupeByConceptId_def)

text \<open>
  Claim C10. When the four snapshot files parse, \<open>generateAllMerged\<close> writes to
  \<open>all.txt\<close> one group \<open>ALL\<close> whose games are the games of every group of the four
  snapshots, sorted by name: a permutation of them, \<open>count\<close> being their number, so nothing
  is dropped. Two records that stand in the snapshots of two different sources and carry
  the same conceptId are therefore both among the games written, which hold at least two
  records of that conceptId. \<open>/all-data\<close> answers that group whenever the text written
  parses back to it. \<open>/all-games\<close>, built on a cache miss from the same files, answers one
  catalogue whose games have pairwise different conceptIds, the conceptIds of the merged
  group each once; and every successful answer of \<open>/all-games\<close> built on a cache miss has
  pairwise different conceptIds.
\<close>

theorem merged_file_keeps_duplicates:
  assumes src: "\<forall>n\<in>set (map fst ENDPOINTS).
                  \<exists>f. disk (filePath n) = Some f \<and> json_parse e (content f) = Inr (snap n)"
  shows "\<exists>merged.
           sortByName e
             (concat (map (\<lambda>n. concat (map (\<lambda>grp. case games grp of None \<Rightarrow> [] | Some gs \<Rightarrow> gs)
                                            (case snap n of None \<Rightarrow> [] | Some groups \<Rightarrow> groups)))
                          (map fst ENDPOINTS))) = Inr merged
         \<and> mset merged
             = mset (concat (map (\<lambda>n. concat (map (\<lambda>grp. case games grp of None \<Rightarrow> [] | Some gs \<Rightarrow> gs)
                                                   (case snap n of None \<Rightarrow> [] | Some groups \<Rightarrow> groups)))
                                 (map fst ENDPOINTS)))
         \<and> generateAllMerged e disk
             = Inr (disk(filePath ''all.txt'' \<mapsto>
                  \<lparr>content = json_stringify e
                     [\<lparr>catalogKey = ''ALL'', count = length merged, games = Some merged\<rparr>],
                   mtimeMs = nowMs e\<rparr>))
         \<and> (\<forall>n1\<in>set (map fst ENDPOINTS). \<forall>n2\<in>set (map fst ENDPOINTS).
               \<forall>groups1 groups2 gs1 gs2.
               \<forall>grp1\<in>set groups1. \<forall>grp2\<in>set groups2. \<forall>g1\<in>set gs1. \<forall>g2\<in>set gs2.
                 n1 \<noteq> n2 \<and> snap n1 = Some groups1 \<and> snap n2 = Some groups2
                 \<and> games grp1 = Some gs1 \<and> games grp2 = Some gs2
                 \<and> conceptId g1 = conceptId g2 \<longrightarrow>
                 g1 \<in> set merged \<and> g2 \<in> set merged
                 \<and> 2 \<le> length (filter (\<lambda>g. conceptId g = conceptId g1) merged))
         \<and> (json_parse e (json_stringify e
                [\<lparr>catalogKey = ''ALL'', count = length merged, games = Some merged\<rparr>])
               = Inr (Some [\<lparr>catalogKey = ''ALL'', count = length merged, games = Some merged\<rparr>])
             \<longrightarrow>
             all_data e (st\<lparr>files := disk(filePath ''all.txt'' \<mapsto>
                  \<lparr>content = json_stringify e
                     [\<lparr>catalogKey = ''ALL'', count = length merged, games = Some merged\<rparr>],
                   mtimeMs = nowMs e\<rparr>)\<rparr>)
               = JsonSnapshot (Some [\<lparr>catalogKey = ''ALL'', count = length merged, games = Some merged\<rparr>]))
         \<and> (\<forall>st0 c st'.
               files st0 = disk(filePath ''all.txt'' \<mapsto>
                  \<lparr>content = json_stringify e
                     [\<lparr>catalogKey = ''ALL'', count = length merged, games = Some merged\<rparr>],
                   mtimeMs = nowMs e\<rparr>)
               \<and> all_view (cache st0) = None \<and> all_games e st0 = (JsonCatalogue c, st') \<longrightarrow>
               (\<exists>cat. c = [cat] \<and> pub_count cat = length (pub_games cat)
                    \<and> distinct (map pub_conceptId (pub_games cat))
                    \<and> set (map pub_conceptId (pub_games cat)) = set (map conceptId merged)))
         \<and> (\<forall>st0 c st'. all_view (cache st0) = None \<and> all_games e st0 = (JsonCatalogue c, st') \<longrightarrow>
               distinct (map pub_conceptId (concat (map pub_games c))))"
proof -
  let ?names = "map fst ENDPOINTS"
  let ?F = "\<lambda>n. flatten_snapshot (snap n)"
  let ?E = "\<lambda>n. concat (map (\<lambda>grp. case games grp of None \<Rightarrow> [] | Some gs \<Rightarrow> gs)
                            (case snap n of None \<Rightarrow> [] | Some groups \<Rightarrow> groups))"
  have FE: "?F = ?E" by (rule ext) (rule flatten_snapshot_explicit)
  from generateAllMerged_ok [OF src] obtain merged
    where s: "sortByName e (concat (map ?F ?names)) = Inr merged"
      and m: "mset merged = mset (concat (map ?F ?names))"
      and g: "generateAllMerged e disk
             = Inr (disk(filePath ''all.txt'' \<mapsto>
                  \<lparr>content = json_stringify e (allPayload merged), mtimeMs = nowMs e\<rparr>))"
    by blast
  let ?payload = "[\<lparr>catalogKey = ''ALL'', count = length merged, games = Some merged\<rparr>]"
  let ?disk' = "disk(filePath ''all.txt'' \<mapsto>
                  \<lparr>content = json_stringify e ?payload, mtimeMs = nowMs e\<rparr>)"
  have p: "allPayload merged = ?payload" by (simp add: allPayload_def)
  have dup: "\<forall>n1\<in>set ?names. \<forall>n2\<in>set ?names.
               \<forall>groups1 groups2 gs1 gs2.
               \<forall>grp1\<in>set groups1. \<forall>grp2\<in>set groups2. \<forall>g1\<in>set gs1. \<forall>g2\<in>set gs2.
                 n1 \<noteq> n2 \<and> snap n1 = Some groups1 \<and> snap n2 = Some groups2
                 \<and> games grp1 = Some gs1 \<and> games grp2 = Some gs2
                 \<and> conceptId g1 = conceptId g2 \<longrightarrow>
                 g1 \<in> set merged \<and> g2 \<in> set merged
                 \<and> 2 \<le> length (filter (\<lambda>g. conceptId g = conceptId g1) merged)"
  proof (intro ballI allI impI)
    fix n1 n2 groups1 groups2 gs1 gs2 grp1 grp2 g1 g2
    assume n: "n1 \<in> set ?names" "n2 \<in> set ?names"
      and grp: "grp1 \<in> set groups1" "grp2 \<in> set groups2"
      and gm: "g1 \<in> set gs1" "g2 \<in> set gs2"
      and h: "n1 \<noteq> n2 \<and> snap n1 = Some groups1 \<and> snap n2 = Some groups2
                 \<and> games grp1 = Some gs1 \<and> games grp2 = Some gs2
                 \<and> conceptId g1 = conceptId g2"
    from h grp(1) gm(1) have f1: "g1 \<in> set (?F n1)"
      using flatten_snapshot_member [of "snap n1" groups1 grp1 gs1 g1] by blast
    from h grp(2) gm(2) have f2: "g2 \<in> set (?F n2)"
      using flatten_snapshot_member [of "snap n2" groups2 grp2 gs2 g2] by blast
    from h have ne: "n1 \<noteq> n2" and same: "conceptId g1 = conceptId g2" by blast+
    from f1 n(1) have "g1 \<in> set (concat (map ?F ?names))" by auto
    with m have a: "g1 \<in> set merged" by (metis mset_eq_setD)
    from f2 n(2) have "g2 \<in> set (concat (map ?F ?names))" by auto
    with m have b: "g2 \<in> set merged" by (metis mset_eq_setD)
    from duplicates_survive_merge [OF m n ne f1 f2 same] a b
    show "g1 \<in> set merged \<and> g2 \<in> set merged
          \<and> 2 \<le> length (filter (\<lambda>g. conceptId g = conceptId g1) merged)" by blast
  qed
  have data: "all_data e (st\<lparr>files := ?disk'\<rparr>) = JsonSnapshot (Some ?payload)"
    if "json_parse e (json_stringify e ?payload) = Inr (Some ?payload)"
    unfolding all_data_def route_paths using that by (simp add: readFile_def)
  have src': "\<forall>n\<in>set ?names.
                \<exists>f. ?disk' (filePath n) = Some f \<and> json_parse e (content f) = Inr (snap n)"
  proof
    fix n
    assume n: "n \<in> set ?names"
    then have "n \<noteq> ''all.txt''" unfolding source_names by auto
    then have ne: "filePath n \<noteq> filePath ''all.txt''" by (simp add: filePath_inj)
    from src n have "\<exists>f. disk (filePath n) = Some f \<and> json_parse e (content f) = Inr (snap n)"
      by (rule bspec)
    with ne show "\<exists>f. ?disk' (filePath n) = Some f \<and> json_parse e (content f) = Inr (snap n)"
      by simp
  qed
  have ids: "set (map conceptId merged)
      = set (map conceptId (?F ''plus-games-list.txt'' @ ?F ''plus-classics-list.txt''
                            @ ?F ''plus-monthly-games-list.txt'' @ ?F ''ubisoft-classics-list.txt''))"
  proof -
    from m have "set merged = set (concat (map ?F ?names))" by (rule mset_eq_setD)
    then show ?thesis unfolding source_names by auto
  qed
  have view: "\<exists>cat. c = [cat] \<and> pub_count cat = length (pub_games cat)
                    \<and> distinct (map pub_conceptId (pub_games cat))
                    \<and> set (map pub_conceptId (pub_games cat)) = set (map conceptId merged)"
    if "files st0 = ?disk'" "all_view (cache st0) = None" "all_games e st0 = (JsonCatalogue c, st')"
    for st0 c st'
  proof -
    from that have "build_all_games e ?disk' = Inr c"
      by (auto simp: all_games_def split: sum.splits)
    from build_all_games_sources [OF src' this] obtain sorted_games
      where c: "c = [\<lparr>catalogueName = ''All'', description = ''Every game from every catalogue'',
                      pub_count = length (map toPublicGame sorted_games),
                      pub_games = map toPublicGame sorted_games\<rparr>]"
        and ms: "mset sorted_games
             = mset (merge_dedupe (?F ''plus-games-list.txt'') (?F ''plus-classics-list.txt'')
                                  (?F ''plus-monthly-games-list.txt'') (?F ''ubisoft-classics-list.txt''))"
      by blast
    let ?md = "merge_dedupe (?F ''plus-games-list.txt'') (?F ''plus-classics-list.txt'')
                 (?F ''plus-monthly-games-list.txt'') (?F ''ubisoft-classics-list.txt'')"
    from ms have mm: "mset (map conceptId sorted_games) = mset (map conceptId ?md)" by simp
    with merge_dedupe_distinct [of "?F ''plus-games-list.txt''" "?F ''plus-classics-list.txt''"
        "?F ''plus-monthly-games-list.txt''" "?F ''ubisoft-classics-list.txt''"]
    have d: "distinct (map conceptId sorted_games)" by (metis mset_eq_imp_distinct_iff)
    from mm have "set (map conceptId sorted_games) = set (map conceptId ?md)" by (rule mset_eq_setD)
    with merge_dedupe_ids ids have i: "set (map conceptId sorted_games) = set (map conceptId merged)"
      by simp
    have pc: "map pub_conceptId (map toPublicGame sorted_games) = map conceptId sorted_games"
      by (simp add: comp_def pub_conceptId_toPublicGame)
    let ?cat = "\<lparr>catalogueName = ''All'', description = ''Every game from every catalogue'',
                      pub_count = length (map toPublicGame sorted_games),
                      pub_games = map toPublicGame sorted_games\<rparr>"
    have g1: "pub_games ?cat = map toPublicGame sorted_games" by simp
    have "c = [?cat]" by (rule c)
    moreover have "pub_count ?cat = length (pub_games ?cat)" by simp
    moreover have "distinct (map pub_conceptId (pub_games ?cat))"
      unfolding g1 pc by (rule d)
    moreover have "set (map pub_conceptId (pub_games ?cat)) = set (map conceptId merged)"
      unfolding g1 pc by (rule i)
    ultimately show ?thesis by (intro exI [where x = ?cat] conjI)
  qed
  have games: "\<forall>st0 c st'. all_view (cache st0) = None \<and> all_games e st0 = (JsonCatalogue c, st') \<longrightarrow>
               distinct (map pub_conceptId (concat (map pub_games c)))"
    using all_games_distinct by blast
  from s [unfolded FE] m [unfolded FE] g [unfolded p] dup data view games show ?thesis
    by (intro exI [where x = merged] conjI impI allI) blast+
qed

lemma sample_sources:
  "\<forall>n\<in>set (map fst ENDPOINTS).
     \<exists>f. sample_files (filePath n) = Some f \<and> json_parse env_ok (content f) = Inr (sample_snapshots n)"
  by (simp add: ENDPOINTS_def sample_files_def sample_texts_def sample_snapshots_def
      filePath_def FULL_DIR_def env_ok_def sample_parse_def)

lemma sample_included:
  "sample_snapshots ''plus-games-list.txt''
     = Some [\<lparr>catalogKey = ''plus-games-list'', count = 1, games = Some [game_alpha]\<rparr>]"
  by (simp add: ENDPOINTS_def sample_texts_def sample_snapshots_def sample_parse_def)

lemma sample_classics:
  "sample_snapshots ''plus-classics-list.txt''
     = Some [\<lparr>catalogKey = ''plus-classics-list'', count = 2,
               games = Some [game_alpha_classic, game_beta]\<rparr>]"
  by (simp add: ENDPOINTS_def sample_texts_def sample_snapshots_def sample_parse_def)

lemma sample_flat:
  "concat (map (\<lambda>n. concat (map (\<lambda>grp. case games grp of None \<Rightarrow> [] | Some gs \<Rightarrow> gs)
                                (case sample_snapshots n of None \<Rightarrow> [] | Some groups \<Rightarrow> groups)))
               (map fst ENDPOINTS)) = sample_merged"
  by (simp add: ENDPOINTS_def sample_texts_def sample_snapshots_def sample_parse_def
      sample_merged_def)

lemma sample_payload:
  "[\<lparr>catalogKey = ''ALL'', count = length sample_merged, games = Some sample_merged\<rparr>]
     = [\<lparr>catalogKey = ''ALL'', count = 3,
          games = Some [game_alpha, game_alpha_classic, game_beta]\<rparr>]"
  by (simp add: sample_merged_def)

lemma sample_read_back:
  "json_parse env_ok ''ALL|3|10001:Alpha|10001:Alpha Classic|10002:Beta|''
     = Inr (Some [\<lparr>catalogKey = ''ALL'', count = 3,
                    games = Some [game_alpha, game_alpha_classic, game_beta]\<rparr>])"
  by (simp add: env_ok_def sample_parse_def)

lemma sample_all_games:
  "fst (all_games env_ok (sample_state\<lparr>files := sample_files(filePath ''all.txt'' \<mapsto>
          \<lparr>content = ''ALL|3|10001:Alpha|10001:Alpha Classic|10002:Beta|'', mtimeMs = 1700000000000\<rparr>)\<rparr>))
     = JsonCatalogue [\<lparr>catalogueName = ''All'', description = ''Every game from every catalogue'',
                       pub_count = 2,
                       pub_games = [toPublicGame game_alpha, toPublicGame game_beta]\<rparr>]"
  by (simp add: all_games_def sample_state_def cold_cache_def build_all_games_def
      loadGroupedGames_def readJsonFile_def readFile_def join_dirname_def sample_files_def
      ENDPOINTS_def sample_texts_def filePath_def FULL_DIR_def env_ok_def sample_parse_def
      games_or_empty_def merge_dedupe_def map_values_def map_has_def map_set_def
      routes_sortByName_def array_sort_def routes_compare_def
      game_alpha_def game_alpha_classic_def game_beta_def)


theorem merged_file_keeps_duplicates_witness:
  "generateAllMerged env_ok sample_files
     = Inr (sample_files(filePath ''all.txt'' \<mapsto>
         \<lparr>content = ''ALL|3|10001:Alpha|10001:Alpha Classic|10002:Beta|'', mtimeMs = 1700000000000\<rparr>))
   \<and> conceptId game_alpha = conceptId game_alpha_classic
   \<and> game_alpha \<noteq> game_alpha_classic
   \<and> game_alpha \<in> set [game_alpha, game_alpha_classic, game_beta]
   \<and> game_alpha_classic \<in> set [game_alpha, game_alpha_classic, game_beta]
   \<and> 2 \<le> length (filter (\<lambda>g. conceptId g = conceptId game_alpha)
                      [game_alpha, game_alpha_classic, game_beta])
   \<and> all_data env_ok (sample_state\<lparr>files := sample_files(filePath ''all.txt'' \<mapsto>
         \<lparr>content = ''ALL|3|10001:Alpha|10001:Alpha Classic|10002:Beta|'', mtimeMs = 1700000000000\<rparr>)\<rparr>)
       = JsonSnapshot (Some [\<lparr>catalogKey = ''ALL'', count = 3,
                               games = Some [game_alpha, game_alpha_classic, game_beta]\<rparr>])
   \<and> fst (all_games env_ok (sample_state\<lparr>files := sample_files(filePath ''all.txt'' \<mapsto>
         \<lparr>content = ''ALL|3|10001:Alpha|10001:Alpha Classic|10002:Beta|'', mtimeMs = 1700000000000\<rparr>)\<rparr>))
       = JsonCatalogue [\<lparr>catalogueName = ''All'', description = ''Every game from every catalogue'',
                         pub_count = 2,
                         pub_games = [toPublicGame game_alpha, toPublicGame game_beta]\<rparr>]
   \<and> distinct (map pub_conceptId [toPublicGame game_alpha, toPublicGame game_beta])
   \<and> set (map pub_conceptId [toPublicGame game_alpha, toPublicGame game_beta])
       = set (map conceptId [game_alpha, game_alpha_classic, game_beta])"
proof -
  let ?written = "\<lparr>content = ''ALL|3|10001:Alpha|10001:Alpha Classic|10002:Beta|'', mtimeMs = 1700000000000\<rparr>"
  let ?disk' = "sample_files(filePath ''all.txt'' \<mapsto> ?written)"
  let ?st0 = "sample_state\<lparr>files := ?disk'\<rparr>"
  let ?cat = "\<lparr>catalogueName = ''All'', description = ''Every game from every catalogue'',
               pub_count = 2, pub_games = [toPublicGame game_alpha, toPublicGame game_beta]\<rparr>"
  let ?included = "\<lparr>catalogKey = ''plus-games-list'', count = 1, games = Some [game_alpha]\<rparr>"
  let ?classics = "\<lparr>catalogKey = ''plus-classics-list'', count = 2,
                     games = Some [game_alpha_classic, game_beta]\<rparr>"
  have now: "nowMs env_ok = 1700000000000" by (simp add: env_ok_def)
  note gen = merged_file_keeps_duplicates [OF sample_sources, of sample_state]
  from gen obtain merged where
    s: "sortByName env_ok
          (concat (map (\<lambda>n. concat (map (\<lambda>grp. case games grp of None \<Rightarrow> [] | Some gs \<Rightarrow> gs)
                                         (case sample_snapshots n of None \<Rightarrow> [] | Some groups \<Rightarrow> groups)))
                       (map fst ENDPOINTS))) = Inr merged"
    and rest: "generateAllMerged env_ok sample_files
             = Inr (sample_files(filePath ''all.txt'' \<mapsto>
                  \<lparr>content = json_stringify env_ok
                     [\<lparr>catalogKey = ''ALL'', count = length merged, games = Some merged\<rparr>],
                   mtimeMs = nowMs env_ok\<rparr>))
         \<and> (\<forall>n1\<in>set (map fst ENDPOINTS). \<forall>n2\<in>set (map fst ENDPOINTS).
               \<forall>groups1 groups2 gs1 gs2.
               \<forall>grp1\<in>set groups1. \<forall>grp2\<in>set groups2. \<forall>g1\<in>set gs1. \<forall>g2\<in>set gs2.
                 n1 \<noteq> n2 \<and> sample_snapshots n1 = Some groups1 \<and> sample_snapshots n2 = Some groups2
                 \<and> games grp1 = Some gs1 \<and> games grp2 = Some gs2
                 \<and> conceptId g1 = conceptId g2 \<longrightarrow>
                 g1 \<in> set merged \<and> g2 \<in> set merged
                 \<and> 2 \<le> length (filter (\<lambda>g. conceptId g = conceptId g1) merged))
         \<and> (json_parse env_ok (json_stringify env_ok
                [\<lparr>catalogKey = ''ALL'', count = length merged, games = Some merged\<rparr>])
               = Inr (Some [\<lparr>catalogKey = ''ALL'', count = length merged, games = Some merged\<rparr>])
             \<longrightarrow>
             all_data env_ok (sample_state\<lparr>files := sample_files(filePath ''all.txt'' \<mapsto>
                  \<lparr>content = json_stringify env_ok
                     [\<lparr>catalogKey = ''ALL'', count = length merged, games = Some merged\<rparr>],
                   mtimeMs = nowMs env_ok\<rparr>)\<rparr>)
               = JsonSnapshot (Some [\<lparr>catalogKey = ''ALL'', count = length merged, games = Some merged\<rparr>]))
         \<and> (\<forall>st0 c st'.
               files st0 = sample_files(filePath ''all.txt'' \<mapsto>
                  \<lparr>content = json_stringify env_ok
                     [\<lparr>catalogKey = ''ALL'', count = length merged, games = Some merged\<rparr>],
                   mtimeMs = nowMs env_ok\<rparr>)
               \<and> all_view (cache st0) = None \<and> all_games env_ok st0 = (JsonCatalogue c, st') \<longrightarrow>
               (\<exists>cat. c = [cat] \<and> pub_count cat = length (pub_games cat)
                    \<and> distinct (map pub_conceptId (pub_games cat))
                    \<and> set (map pub_conceptId (pub_games cat)) = set (map conceptId merged)))"
    by (elim exE conjE) (rule that, assumption, intro conjI, assumption+)
  from s have merged: "merged = [game_alpha, game_alpha_classic, game_beta]"
    unfolding sample_flat sample_sorted by (simp add: sample_merged_def)
  have len: "length [game_alpha, game_alpha_classic, game_beta] = 3" by simp
  note rest' = rest [unfolded merged len sample_written now]
  note written = rest' [THEN conjunct1]
  note dup = rest' [THEN conjunct2, THEN conjunct1]
  note data = rest' [THEN conjunct2, THEN conjunct2, THEN conjunct1]
  note view = rest' [THEN conjunct2, THEN conjunct2, THEN conjunct2]
  have n1: "''plus-games-list.txt'' \<in> set (map fst ENDPOINTS)" by (simp add: ENDPOINTS_def)
  have n2: "''plus-classics-list.txt'' \<in> set (map fst ENDPOINTS)" by (simp add: ENDPOINTS_def)
  have m1: "?included \<in> set [?included]" by simp
  have m2: "?classics \<in> set [?classics]" by simp
  have m3: "game_alpha \<in> set [game_alpha]" by simp
  have m4: "game_alpha_classic \<in> set [game_alpha_classic, game_beta]" by simp
  have same: "conceptId game_alpha = conceptId game_alpha_classic"
    by (simp add: game_alpha_def game_alpha_classic_def)
  have differ: "game_alpha \<noteq> game_alpha_classic"
    by (simp add: game_alpha_def game_alpha_classic_def)
  have hyp: "''plus-games-list.txt'' \<noteq> ''plus-classics-list.txt''
      \<and> sample_snapshots ''plus-games-list.txt'' = Some [?included]
      \<and> sample_snapshots ''plus-classics-list.txt'' = Some [?classics]
      \<and> games ?included = Some [game_alpha]
      \<and> games ?classics = Some [game_alpha_classic, game_beta]
      \<and> conceptId game_alpha = conceptId game_alpha_classic"
    using same by (simp add: sample_included sample_classics)
  note both = dup [THEN bspec, OF n1, THEN bspec, OF n2, THEN spec, THEN spec, THEN spec, THEN spec,
      THEN bspec, OF m1, THEN bspec, OF m2, THEN bspec, OF m3, THEN bspec, OF m4, THEN mp, OF hyp]
  note served = data [THEN mp, OF sample_read_back]
  have cold: "all_view (cache ?st0) = None" by (simp add: sample_state_def cold_cache_def)
  have on_disk: "files ?st0 = ?disk'" by simp
  have pair: "all_games env_ok ?st0 = (JsonCatalogue [?cat], snd (all_games env_ok ?st0))"
    by (simp add: sample_all_games [symmetric])
  from view [THEN spec, THEN spec, THEN spec, THEN mp, OF conjI [OF on_disk conjI [OF cold pair]]]
  obtain cat where cat: "[?cat] = [cat]"
    and d: "distinct (map pub_conceptId (pub_games cat))"
    and ids: "set (map pub_conceptId (pub_games cat))
              = set (map conceptId [game_alpha, game_alpha_classic, game_beta])"
    by (elim exE conjE) (rule that, assumption+)
  from cat have c: "cat = ?cat" by simp
  have games: "pub_games ?cat = [toPublicGame game_alpha, toPublicGame game_beta]" by simp
  note d' = d [unfolded c games]
  note ids' = ids [unfolded c games]
  show ?thesis
    by (intro conjI written same differ both [THEN conjunct1] both [THEN conjunct2, THEN conjunct1]
        both [THEN conjunct2, THEN conjunct2] served sample_all_games d' ids')
qed

end
